theory Spec2Isabelle
  imports Main "HOL-Library.Word" "HOL-Library.Monad_Syntax"
begin

unbundle bit_operations_syntax

section \<open>Data model\<close>

text \<open>
  The allocator of \<^verbatim>\<open>src/unnamed/part_001\<close> (whose \<^verbatim>\<open>malloc\<close> is also
  \<^verbatim>\<open>src/asgn01/malloc.c\<close>) and its logging variant \<^verbatim>\<open>src/unnamed/part_000\<close>,
  for an LP64 target: \<^verbatim>\<open>size_t\<close> and pointers are 64-bit words, all arithmetic on
  them wraps modulo \<open>2 ^ 64\<close>. A nullable pointer is an \<open>addr option\<close>, \<open>None\<close>
  being \<^verbatim>\<open>NULL\<close>.
\<close>

type_synonym size_t = "64 word"
type_synonym addr = "64 word"

text \<open>\<^verbatim>\<open>typedef struct header { size_t size; int is_free; struct header *next, *prev; } Header;\<close>
  The field \<^verbatim>\<open>size\<close> is called \<open>size_f\<close> here; \<^verbatim>\<open>is_free\<close> only ever holds 0 or 1
  and is only tested for being non-zero.\<close>

record Header =
  size_f :: size_t
  is_free :: bool
  "next" :: "addr option"
  prev :: "addr option"

text \<open>One line written by \<^verbatim>\<open>pp(stdout, ...)\<close> in the logging build: the operation
  and the arguments of the format string.\<close>

datatype trace =
    Malloc_line size_t addr size_t
  | Free_line "addr option"
  | Calloc_line size_t size_t addr size_t
  | Realloc_line addr size_t addr size_t

text \<open>
  The process state. Memory is read through two views over the same address space:
  \<open>hdr\<close> gives the header fields stored at an address, \<open>mem\<close> the payload bytes.
  \<open>heap_head\<close> is the static variable of that name. \<open>brk\<close> is the program break;
  \<open>brk_start\<close> and \<open>brk_limit\<close> bound where the operating system lets it move.
  \<open>debug_mode\<close>, \<open>environ\<close> and \<open>out\<close> are used by the logging build only: the
  static flag, the process environment and what was written to standard output.
\<close>

record state =
  heap_head :: "addr option"
  hdr :: "addr \<Rightarrow> Header"
  mem :: "addr \<Rightarrow> 8 word"
  brk :: addr
  brk_start :: addr
  brk_limit :: addr
  errno :: int
  debug_mode :: int
  environ :: "string \<rightharpoonup> string"
  out :: "trace list"

definition ALGN :: size_t where
  "ALGN = 16"

text \<open>\<^verbatim>\<open>sizeof(Header)\<close> on LP64: 8 + 4 (+ 4 padding) + 8 + 8.\<close>

definition HEADER_SIZE :: size_t where
  "HEADER_SIZE = 32"

definition PADDED_HEADER_SIZE :: size_t where
  "PADDED_HEADER_SIZE = (HEADER_SIZE + (ALGN - 1)) AND NOT (ALGN - 1)"

definition SIZE_MAX :: size_t where
  "SIZE_MAX = - 1"

definition ENOMEM :: int where
  "ENOMEM = 12"

text \<open>The rounding \<^verbatim>\<open>(size + (ALGN - 1)) & ~(ALGN - 1)\<close> of \<^verbatim>\<open>malloc\<close> and \<^verbatim>\<open>realloc\<close>.\<close>

definition align_up :: "size_t \<Rightarrow> size_t" where
  "align_up sz = (sz + (ALGN - 1)) AND NOT (ALGN - 1)"

section \<open>The operating system: sbrk, memset, memcpy\<close>

text \<open>
  \<^verbatim>\<open>sbrk(increment)\<close> of the C library on Linux. The increment is an \<^verbatim>\<open>intptr_t\<close>, so
  the \<^verbatim>\<open>size_t\<close> argument is read as a signed number.
  \<^item> An increment of 0 returns the break and changes nothing.
  \<^item> A positive increment moves the break up and returns the old break when the new break
    does not pass \<open>brk_limit\<close>, the address up to which the kernel extends the data
    segment; otherwise nothing moves, \<^verbatim>\<open>errno\<close> is \<^verbatim>\<open>ENOMEM\<close> and the result is
    \<^verbatim>\<open>(void *) -1\<close>, here \<open>None\<close>.
  \<^item> A negative increment that is larger than the break fails in the same way. One that
    would take the break below \<open>brk_start\<close>, where the data segment begins, is not
    carried out: the kernel keeps the break and reports it, and the library returns the
    old break as for a success, with \<^verbatim>\<open>errno\<close> untouched. Any other negative increment
    moves the break down and returns the old break.
\<close>

definition sbrk :: "state \<Rightarrow> size_t \<Rightarrow> addr option \<times> state" where
  "sbrk st increment =
     (let new_brk = uint (brk st) + sint increment
      in if increment = 0 then (Some (brk st), st)
         else if 0 < sint increment then
           (if new_brk \<le> uint (brk_limit st)
            then (Some (brk st), st\<lparr>brk := brk st + increment\<rparr>)
            else (None, st\<lparr>errno := ENOMEM\<rparr>))
         else if new_brk < 0 then (None, st\<lparr>errno := ENOMEM\<rparr>)
         else if new_brk < uint (brk_start st) then (Some (brk st), st)
         else (Some (brk st), st\<lparr>brk := brk st + increment\<rparr>))"

text \<open>
  The kernel maps the data segment page by page, so the process can access every address
  of the arena below the end of the page that holds the last byte under the break, and
  nothing above it. An access of \<open>n > 0\<close> bytes at \<open>a\<close> that reaches beyond that end is a
  segmentation fault: the call in which it happens does not return. What lies below the
  arena (the other segments of the process) is not modelled: \<open>mapped\<close> bounds an access
  from above only.
\<close>

definition PAGE_SIZE :: nat where
  "PAGE_SIZE = 4096"

definition mapped_end :: "state \<Rightarrow> nat" where
  "mapped_end st = (unat (brk st) + (PAGE_SIZE - 1)) div PAGE_SIZE * PAGE_SIZE"

definition mapped :: "state \<Rightarrow> addr \<Rightarrow> size_t \<Rightarrow> bool" where
  "mapped st a n = (n = 0 \<or> unat a + unat n \<le> mapped_end st)"

text \<open>\<^verbatim>\<open>memset(s, c, n)\<close> and \<^verbatim>\<open>memcpy(dest, src, n)\<close>. The \<open>n\<close> bytes from \<open>s\<close> are the
  addresses \<open>a\<close> with \<open>a - s < n\<close>. The result is \<open>None\<close> when the call faults. The bytes
  are written to the view \<open>mem\<close>: on a well-formed directory the calls of the allocator
  that return have stayed inside the payload of a block (lemmas
  \<open>memset_inside_payload\<close> and \<open>memcpy_inside_payloads\<close>).\<close>

definition memset :: "state \<Rightarrow> addr \<Rightarrow> 8 word \<Rightarrow> size_t \<Rightarrow> state option" where
  "memset st s c n =
     (if mapped st s n
      then Some (st\<lparr>mem := (\<lambda>a. if a - s < n then c else mem st a)\<rparr>)
      else None)"

definition memcpy :: "state \<Rightarrow> addr \<Rightarrow> addr \<Rightarrow> size_t \<Rightarrow> state option" where
  "memcpy st dest src n =
     (if mapped st dest n \<and> mapped st src n
      then Some (st\<lparr>mem := (\<lambda>a. if a - dest < n then mem st (src + (a - dest)) else mem st a)\<rparr>)
      else None)"

section \<open>Writes to header fields\<close>

definition set_size :: "(addr \<Rightarrow> Header) \<Rightarrow> addr \<Rightarrow> size_t \<Rightarrow> (addr \<Rightarrow> Header)" where
  "set_size h p v = h(p := (h p)\<lparr>size_f := v\<rparr>)"

definition set_is_free :: "(addr \<Rightarrow> Header) \<Rightarrow> addr \<Rightarrow> bool \<Rightarrow> (addr \<Rightarrow> Header)" where
  "set_is_free h p v = h(p := (h p)\<lparr>is_free := v\<rparr>)"

definition set_next :: "(addr \<Rightarrow> Header) \<Rightarrow> addr \<Rightarrow> addr option \<Rightarrow> (addr \<Rightarrow> Header)" where
  "set_next h p v = h(p := (h p)\<lparr>next := v\<rparr>)"

definition set_prev :: "(addr \<Rightarrow> Header) \<Rightarrow> addr \<Rightarrow> addr option \<Rightarrow> (addr \<Rightarrow> Header)" where
  "set_prev h p v = h(p := (h p)\<lparr>prev := v\<rparr>)"

section \<open>malloc (part\_001 lines 28-127, asgn01/malloc.c lines 26-125)\<close>

text \<open>Lines 42-49: the size of the first request to the operating system.\<close>

definition first_request_size :: "size_t \<Rightarrow> size_t" where
  "first_request_size sz =
     (let initial_chunk_size = 64 * 1024;
          request_size = initial_chunk_size
      in if PADDED_HEADER_SIZE + sz > request_size
         then PADDED_HEADER_SIZE + sz + ALGN
         else request_size)"

text \<open>Lines 39-67, the body of \<^verbatim>\<open>if (heap_head == NULL)\<close>. The result is
  \<open>Some None\<close> when \<^verbatim>\<open>sbrk\<close> fails (\<^verbatim>\<open>malloc\<close> then sets \<^verbatim>\<open>errno\<close> and returns \<^verbatim>\<open>NULL\<close>),
  and \<open>None\<close> when the stores of lines 60-64 fault: the header is written at the address
  \<^verbatim>\<open>sbrk\<close> returned, whatever the size of the grant.\<close>

definition heap_init :: "state \<Rightarrow> size_t \<Rightarrow> state option option" where
  "heap_init st sz =
     (let request_size = first_request_size sz
      in case sbrk st request_size of
           (None, st') \<Rightarrow> Some None
         | (Some block, st') \<Rightarrow>
             if mapped st' block HEADER_SIZE
             then Some (Some (st'\<lparr>hdr := (hdr st')(block :=
                          \<lparr>size_f = request_size - PADDED_HEADER_SIZE, is_free = True,
                           next = None, prev = None\<rparr>),
                        heap_head := Some block\<rparr>))
             else None)"

text \<open>Lines 78-94: the split of \<open>current\<close>, write by write.\<close>

definition split_block :: "(addr \<Rightarrow> Header) \<Rightarrow> addr \<Rightarrow> size_t \<Rightarrow> (addr \<Rightarrow> Header)" where
  "split_block h0 current sz =
     (let new_block = current + PADDED_HEADER_SIZE + sz;
          h1 = set_size h0 new_block (size_f (h0 current) - sz - PADDED_HEADER_SIZE);
          h2 = set_is_free h1 new_block True;
          h3 = set_next h2 new_block (next (h2 current));
          h4 = set_prev h3 new_block (Some current);
          h5 = (case next (h4 current) of
                  None \<Rightarrow> h4
                | Some n \<Rightarrow> set_prev h4 n (Some new_block));
          h6 = set_size h5 current sz
      in set_next h6 current (Some new_block))"

text \<open>Lines 70-102: the search loop. It returns the first block of the chain that is
  free and large enough, \<open>Some None\<close> when the chain ends without one; it does not
  return (\<open>None\<close>) on a chain that never reaches \<^verbatim>\<open>NULL\<close>.\<close>

partial_function (option) first_fit ::
  "(addr \<Rightarrow> Header) \<Rightarrow> addr option \<Rightarrow> size_t \<Rightarrow> addr option option" where
  "first_fit h current sz =
     (case current of
        None \<Rightarrow> Some None
      | Some c \<Rightarrow>
          if is_free (h c) \<and> size_f (h c) \<ge> sz then Some (Some c)
          else first_fit h (next (h c)) sz)"

text \<open>Lines 73-99: what is done to the block the search stops at.\<close>

definition take_block :: "(addr \<Rightarrow> Header) \<Rightarrow> addr \<Rightarrow> size_t \<Rightarrow> (addr \<Rightarrow> Header)" where
  "take_block h current sz =
     set_is_free
       (if size_f (h current) \<ge> sz + PADDED_HEADER_SIZE + ALGN
        then split_block h current sz else h)
       current False"

text \<open>Lines 107-110: the walk to the last block.\<close>

partial_function (option) last_block :: "(addr \<Rightarrow> Header) \<Rightarrow> addr \<Rightarrow> addr option" where
  "last_block h b = (case next (h b) of None \<Rightarrow> Some b | Some n \<Rightarrow> last_block h n)"

declare first_fit.simps [code]
declare last_block.simps [code]

text \<open>Lines 113-126: growth of the arena by one in-use block. The result is \<open>None\<close> when
  the stores of lines 120-123 fault: the header is written at the address \<^verbatim>\<open>sbrk\<close>
  returned, whatever the increment was as a signed number.\<close>

definition grow :: "state \<Rightarrow> addr \<Rightarrow> size_t \<Rightarrow> (addr option \<times> state) option" where
  "grow st last_blk sz =
     (case sbrk st (PADDED_HEADER_SIZE + sz + ALGN) of
        (None, st') \<Rightarrow> Some (None, st'\<lparr>errno := ENOMEM\<rparr>)
      | (Some new_block, st') \<Rightarrow>
          if mapped st' new_block HEADER_SIZE then
            let h1 = set_size (hdr st') new_block sz;
                h2 = set_is_free h1 new_block False;
                h3 = set_next h2 new_block None;
                h4 = set_prev h3 new_block (Some last_blk);
                h5 = set_next h4 last_blk (Some new_block)
            in Some (Some (new_block + PADDED_HEADER_SIZE), st'\<lparr>hdr := h5\<rparr>)
          else None)"

text \<open>\<^verbatim>\<open>malloc\<close>: the result is \<open>None\<close> when the call does not return (a loop does not
  end, or a store faults), otherwise the returned pointer and the state. After line 67
  \<^verbatim>\<open>heap_head\<close> is not \<^verbatim>\<open>NULL\<close>; the walk of line 107 would dereference it, so that case
  does not return either.\<close>

definition malloc :: "state \<Rightarrow> size_t \<Rightarrow> (addr option \<times> state) option" where
  "malloc st req =
     (if req = 0 then Some (None, st)
      else
        let sz = align_up req
        in case (if heap_head st = None then heap_init st sz else Some (Some st)) of
             None \<Rightarrow> None
           | Some None \<Rightarrow> Some (None, st\<lparr>errno := ENOMEM\<rparr>)
           | Some (Some st1) \<Rightarrow>
               (case first_fit (hdr st1) (heap_head st1) sz of
                  None \<Rightarrow> None
                | Some (Some current) \<Rightarrow>
                    Some (Some (current + PADDED_HEADER_SIZE),
                          st1\<lparr>hdr := take_block (hdr st1) current sz\<rparr>)
                | Some None \<Rightarrow>
                    (case heap_head st1 of
                       None \<Rightarrow> None
                     | Some head \<Rightarrow>
                         (case last_block (hdr st1) head of
                            None \<Rightarrow> None
                          | Some last_blk \<Rightarrow> grow st1 last_blk sz))))"

section \<open>free (part\_001 lines 131-190)\<close>

text \<open>Lines 149-163: the loop that absorbs free successors into \<open>current\<close>. It
  does not return (\<open>None\<close>) when the run of free successors never ends.\<close>

partial_function (option) merge_next ::
  "(addr \<Rightarrow> Header) \<Rightarrow> addr \<Rightarrow> (addr \<Rightarrow> Header) option" where
  "merge_next h0 current =
     (case next (h0 current) of
        None \<Rightarrow> Some h0
      | Some next_block \<Rightarrow>
          if is_free (h0 next_block) then
            let h1 = set_size h0 current
                       (size_f (h0 current) + (PADDED_HEADER_SIZE + size_f (h0 next_block)));
                h2 = set_next h1 current (next (h1 next_block));
                h3 = (case next (h2 next_block) of
                        None \<Rightarrow> h2
                      | Some n \<Rightarrow> set_prev h2 n (Some current))
            in merge_next h3 current
          else Some h0)"

text \<open>Lines 169-185: the merge of \<open>current\<close> into a free predecessor.\<close>

definition merge_prev :: "(addr \<Rightarrow> Header) \<Rightarrow> addr \<Rightarrow> (addr \<Rightarrow> Header)" where
  "merge_prev h0 current =
     (case prev (h0 current) of
        None \<Rightarrow> h0
      | Some prev_block \<Rightarrow>
          if is_free (h0 prev_block) then
            let h1 = set_size h0 prev_block
                       (size_f (h0 prev_block) + (PADDED_HEADER_SIZE + size_f (h0 current)));
                h2 = set_next h1 prev_block (next (h1 current))
            in (case next (h2 current) of
                  None \<Rightarrow> h2
                | Some n \<Rightarrow> set_prev h2 n (Some prev_block))
          else h0)"

definition free :: "state \<Rightarrow> addr option \<Rightarrow> state option" where
  "free st ptr =
     (case ptr of
        None \<Rightarrow> Some st
      | Some p \<Rightarrow>
          let current = p - PADDED_HEADER_SIZE
          in if is_free (hdr st current) then Some st
             else
               do {
                 h \<leftarrow> merge_next (set_is_free (hdr st) current True) current;
                 Some (st\<lparr>hdr := merge_prev h current\<rparr>)
               })"

declare merge_next.simps [code]

section \<open>calloc (part\_001 lines 193-213)\<close>

definition calloc :: "state \<Rightarrow> size_t \<Rightarrow> size_t \<Rightarrow> (addr option \<times> state) option" where
  "calloc st nmemb sz =
     (if nmemb > 0 \<and> sz > 0 \<and> nmemb > SIZE_MAX div sz
      then Some (None, st\<lparr>errno := ENOMEM\<rparr>)
      else
        let total_size = nmemb * sz
        in case malloc st total_size of
             None \<Rightarrow> None
           | Some (None, st1) \<Rightarrow> Some (None, st1)
           | Some (Some p, st1) \<Rightarrow>
               (case memset st1 p 0 total_size of
                  None \<Rightarrow> None
                | Some st2 \<Rightarrow> Some (Some p, st2)))"

section \<open>realloc (part\_001 lines 216-300)\<close>

text \<open>Lines 257-279: the in-place expansion into a free successor, \<open>None\<close> when it
  does not apply. The split of the excess is an empty block in this file (lines
  271-274).\<close>

definition expand_in_place :: "(addr \<Rightarrow> Header) \<Rightarrow> addr \<Rightarrow> size_t \<Rightarrow> (addr \<Rightarrow> Header) option" where
  "expand_in_place h0 current aligned_size =
     (case next (h0 current) of
        None \<Rightarrow> None
      | Some next_block \<Rightarrow>
          if is_free (h0 next_block) then
            let merged_size = size_f (h0 current) + PADDED_HEADER_SIZE + size_f (h0 next_block)
            in if merged_size \<ge> aligned_size then
                 let h1 = set_size h0 current merged_size;
                     h2 = set_next h1 current (next (h1 next_block));
                     h3 = (case next (h2 next_block) of
                             None \<Rightarrow> h2
                           | Some n \<Rightarrow> set_prev h2 n (Some current));
                     h4 = (if size_f (h3 current) \<ge> aligned_size + PADDED_HEADER_SIZE + ALGN
                           then h3 else h3)
                 in Some (set_size h4 current aligned_size)
               else None
          else None)"

text \<open>Lines 281-299: the relocation.\<close>

definition relocate :: "state \<Rightarrow> addr \<Rightarrow> size_t \<Rightarrow> (addr option \<times> state) option" where
  "relocate st p sz =
     (let aligned_size = align_up sz;
          current = p - PADDED_HEADER_SIZE
      in case malloc st sz of
           None \<Rightarrow> None
         | Some (None, st1) \<Rightarrow> Some (None, st1)
         | Some (Some new_ptr, st1) \<Rightarrow>
             (let copy_size = (if size_f (hdr st1 current) < aligned_size
                               then size_f (hdr st1 current) else aligned_size)
              in case memcpy st1 new_ptr p copy_size of
                   None \<Rightarrow> None
                 | Some st2 \<Rightarrow>
                     (case free st2 (Some p) of
                        None \<Rightarrow> None
                      | Some st3 \<Rightarrow> Some (Some new_ptr, st3))))"

definition realloc :: "state \<Rightarrow> addr option \<Rightarrow> size_t \<Rightarrow> (addr option \<times> state) option" where
  "realloc st ptr sz =
     (case ptr of
        None \<Rightarrow> malloc st sz
      | Some p \<Rightarrow>
          if sz = 0 then (case free st (Some p) of None \<Rightarrow> None | Some st' \<Rightarrow> Some (None, st'))
          else
            let aligned_size = align_up sz;
                current = p - PADDED_HEADER_SIZE
            in if size_f (hdr st current) \<ge> aligned_size then
                 Some (Some p,
                   if size_f (hdr st current) \<ge> aligned_size + PADDED_HEADER_SIZE + ALGN
                   then st\<lparr>hdr := split_block (hdr st) current aligned_size\<rparr>
                   else st)
               else
                 (case expand_in_place (hdr st) current aligned_size of
                    Some h \<Rightarrow> Some (Some p, st\<lparr>hdr := h\<rparr>)
                  | None \<Rightarrow> relocate st p sz))"

section \<open>The logging build (part\_000)\<close>

text \<open>Lines 16-26: the flag is read from the environment when it is still -1.\<close>

definition check_debug_mode :: "state \<Rightarrow> int \<times> state" where
  "check_debug_mode st =
     (let st' = (if debug_mode st = - 1
                 then (if environ st ''DEBUG_MALLOC'' \<noteq> None
                       then st\<lparr>debug_mode := 1\<rparr> else st\<lparr>debug_mode := 0\<rparr>)
                 else st)
      in (debug_mode st', st'))"

text \<open>Every caller tests \<^verbatim>\<open>if(check_debug_mode)\<close>, without a call: the condition is
  the function designator, converted to a pointer to the function and compared with the
  null pointer. The function has an address, so the condition holds.\<close>

definition check_debug_mode_designator :: bool where
  "check_debug_mode_designator = True"

text \<open>\<^verbatim>\<open>pp(stdout, format, ...)\<close>: one line more on standard output.\<close>

definition pp :: "state \<Rightarrow> trace \<Rightarrow> state" where
  "pp st line = st\<lparr>out := out st @ [line]\<rparr>"

text \<open>\<^verbatim>\<open>malloc\<close>, lines 53-173. Up to the temporary \<^verbatim>\<open>chrptr\<close> its statements are
  those of part\_001, followed by the trace before each successful return.\<close>

definition malloc_p0 :: "state \<Rightarrow> size_t \<Rightarrow> (addr option \<times> state) option" where
  "malloc_p0 st req =
     (let requested_size = req
      in if req = 0 then Some (None, st)
      else
        let sz = align_up req
        in case (if heap_head st = None then heap_init st sz else Some (Some st)) of
             None \<Rightarrow> None
           | Some None \<Rightarrow> Some (None, st\<lparr>errno := ENOMEM\<rparr>)
           | Some (Some st1) \<Rightarrow>
               (case first_fit (hdr st1) (heap_head st1) sz of
                  None \<Rightarrow> None
                | Some (Some current) \<Rightarrow>
                    (let st2 = st1\<lparr>hdr := take_block (hdr st1) current sz\<rparr>;
                         ptr = current + PADDED_HEADER_SIZE
                     in Some (Some ptr,
                          if check_debug_mode_designator
                          then pp st2 (Malloc_line requested_size ptr (size_f (hdr st2 current)))
                          else st2))
                | Some None \<Rightarrow>
                    (case heap_head st1 of
                       None \<Rightarrow> None
                     | Some head \<Rightarrow>
                         (case last_block (hdr st1) head of
                            None \<Rightarrow> None
                          | Some last_blk \<Rightarrow>
                              (case grow st1 last_blk sz of
                                 None \<Rightarrow> None
                               | Some (None, st2) \<Rightarrow> Some (None, st2)
                               | Some (Some ptr, st2) \<Rightarrow>
                                   Some (Some ptr,
                                     if check_debug_mode_designator
                                     then pp st2 (Malloc_line requested_size ptr
                                            (size_f (hdr st2 (ptr - PADDED_HEADER_SIZE))))
                                     else st2))))))"

text \<open>\<^verbatim>\<open>free\<close>, lines 179-243: the trace comes first, then the statements of part\_001.\<close>

definition free_p0 :: "state \<Rightarrow> addr option \<Rightarrow> state option" where
  "free_p0 st ptr =
     free (if check_debug_mode_designator then pp st (Free_line ptr) else st) ptr"

text \<open>\<^verbatim>\<open>calloc\<close>, lines 247-282.\<close>

definition calloc_p0 :: "state \<Rightarrow> size_t \<Rightarrow> size_t \<Rightarrow> (addr option \<times> state) option" where
  "calloc_p0 st nmemb sz =
     (if nmemb > 0 \<and> sz > 0 \<and> nmemb > SIZE_MAX div sz
      then Some (None, st\<lparr>errno := ENOMEM\<rparr>)
      else
        let total_size = nmemb * sz
        in case malloc_p0 st total_size of
             None \<Rightarrow> None
           | Some (None, st1) \<Rightarrow> Some (None, st1)
           | Some (Some p, st1) \<Rightarrow>
               (case memset st1 p 0 total_size of
                  None \<Rightarrow> None
                | Some st2 \<Rightarrow>
                    (let h = p - PADDED_HEADER_SIZE
                     in Some (Some p,
                          if check_debug_mode_designator
                          then pp st2 (Calloc_line nmemb sz p (size_f (hdr st2 h)))
                          else st2))))"

text \<open>\<^verbatim>\<open>realloc\<close>, lines 313-328: the split of the shrinking case, where the size of the
  new block is written in two statements.\<close>

definition split_block_p0 :: "(addr \<Rightarrow> Header) \<Rightarrow> addr \<Rightarrow> size_t \<Rightarrow> (addr \<Rightarrow> Header)" where
  "split_block_p0 h0 current aSize =
     (let new_block = current + PADDED_HEADER_SIZE + aSize;
          h1 = set_size h0 new_block (size_f (h0 current) - aSize);
          h1' = set_size h1 new_block (size_f (h1 new_block) - PADDED_HEADER_SIZE);
          h2 = set_is_free h1' new_block True;
          h3 = set_next h2 new_block (next (h2 current));
          h4 = set_prev h3 new_block (Some current);
          h5 = (case next (h4 current) of
                  None \<Rightarrow> h4
                | Some n \<Rightarrow> set_prev h4 n (Some new_block));
          h6 = set_size h5 current aSize
      in set_next h6 current (Some new_block))"

text \<open>Lines 342-384: the in-place expansion, with the split of the excess (lines
  356-372, which leave \<^verbatim>\<open>current->size\<close> to line 374).\<close>

definition expand_in_place_p0 :: "(addr \<Rightarrow> Header) \<Rightarrow> addr \<Rightarrow> size_t \<Rightarrow> (addr \<Rightarrow> Header) option" where
  "expand_in_place_p0 h0 current aSize =
     (case next (h0 current) of
        None \<Rightarrow> None
      | Some next_block \<Rightarrow>
          if is_free (h0 next_block) then
            let msize = size_f (h0 current) + PADDED_HEADER_SIZE + size_f (h0 next_block)
            in if msize \<ge> aSize then
                 let h1 = set_size h0 current msize;
                     h2 = set_next h1 current (next (h1 next_block));
                     h3 = (case next (h2 next_block) of
                             None \<Rightarrow> h2
                           | Some n \<Rightarrow> set_prev h2 n (Some current));
                     h4 = (if size_f (h3 current) \<ge> aSize + PADDED_HEADER_SIZE + ALGN
                           then
                             let new_block = current + PADDED_HEADER_SIZE + aSize;
                                 k1 = set_size h3 new_block (size_f (h3 current) - aSize);
                                 k1' = set_size k1 new_block
                                         (size_f (k1 new_block) - PADDED_HEADER_SIZE);
                                 k2 = set_is_free k1' new_block True;
                                 k3 = set_next k2 new_block (next (k2 current));
                                 k4 = set_prev k3 new_block (Some current);
                                 k5 = (case next (k4 current) of
                                         None \<Rightarrow> k4
                                       | Some n \<Rightarrow> set_prev k4 n (Some new_block))
                             in set_next k5 current (Some new_block)
                           else h3)
                 in Some (set_size h4 current aSize)
               else None
          else None)"

text \<open>Lines 386-413: the relocation.\<close>

definition relocate_p0 :: "state \<Rightarrow> addr \<Rightarrow> size_t \<Rightarrow> (addr option \<times> state) option" where
  "relocate_p0 st p sz =
     (let requested_size = sz;
          aSize = align_up sz;
          current = p - PADDED_HEADER_SIZE
      in case malloc_p0 st sz of
           None \<Rightarrow> None
         | Some (None, st1) \<Rightarrow> Some (None, st1)
         | Some (Some new_ptr, st1) \<Rightarrow>
             (let cs = (if size_f (hdr st1 current) < aSize
                        then size_f (hdr st1 current) else aSize)
              in case memcpy st1 new_ptr p cs of
                   None \<Rightarrow> None
                 | Some st2 \<Rightarrow>
                     (case free_p0 st2 (Some p) of
                        None \<Rightarrow> None
                      | Some st3 \<Rightarrow>
                          (let h = new_ptr - PADDED_HEADER_SIZE
                           in Some (Some new_ptr,
                                if check_debug_mode_designator
                                then pp st3 (Realloc_line p requested_size new_ptr
                                       (size_f (hdr st3 h)))
                                else st3)))))"

definition realloc_p0 :: "state \<Rightarrow> addr option \<Rightarrow> size_t \<Rightarrow> (addr option \<times> state) option" where
  "realloc_p0 st ptr sz =
     (let requested_size = sz
      in case ptr of
        None \<Rightarrow> malloc_p0 st sz
      | Some p \<Rightarrow>
          if sz = 0
          then (case free_p0 st (Some p) of None \<Rightarrow> None | Some st' \<Rightarrow> Some (None, st'))
          else
            let aSize = align_up sz;
                current = p - PADDED_HEADER_SIZE
            in if size_f (hdr st current) \<ge> aSize then
                 (let st1 = (if size_f (hdr st current) \<ge> aSize + PADDED_HEADER_SIZE + ALGN
                             then st\<lparr>hdr := split_block_p0 (hdr st) current aSize\<rparr>
                             else st)
                  in Some (Some p,
                       if check_debug_mode_designator
                       then pp st1 (Realloc_line p requested_size p (size_f (hdr st1 current)))
                       else st1))
               else
                 (case expand_in_place_p0 (hdr st) current aSize of
                    Some h \<Rightarrow>
                      (let st1 = st\<lparr>hdr := h\<rparr>
                       in Some (Some p,
                            if check_debug_mode_designator
                            then pp st1 (Realloc_line p requested_size p (size_f (hdr st1 current)))
                            else st1))
                  | None \<Rightarrow> relocate_p0 st p sz))"

section \<open>The directory as a list of header addresses\<close>

text \<open>\<open>chain h p bs\<close>: following \<^verbatim>\<open>next\<close> from \<open>p\<close> visits the headers \<open>bs\<close> in this
  order and then reaches \<^verbatim>\<open>NULL\<close>.\<close>

primrec chain :: "(addr \<Rightarrow> Header) \<Rightarrow> addr option \<Rightarrow> addr list \<Rightarrow> bool" where
  "chain h p [] = (p = None)"
| "chain h p (a # as) = (p = Some a \<and> chain h (next (h a)) as)"

text \<open>\<open>back_links h p bs\<close>: each header of \<open>bs\<close> has its predecessor as \<^verbatim>\<open>prev\<close>, the
  first one \<open>p\<close>.\<close>

primrec back_links :: "(addr \<Rightarrow> Header) \<Rightarrow> addr option \<Rightarrow> addr list \<Rightarrow> bool" where
  "back_links h p [] = True"
| "back_links h p (a # as) = (prev (h a) = p \<and> back_links h (Some a) as)"

text \<open>\<open>layout h lo bs hi\<close>: the blocks of \<open>bs\<close> lie in address order between \<open>lo\<close> and
  \<open>hi\<close>, and no block (header and payload) reaches into the next one.\<close>

primrec layout :: "(addr \<Rightarrow> Header) \<Rightarrow> nat \<Rightarrow> addr list \<Rightarrow> nat \<Rightarrow> bool" where
  "layout h lo [] hi = (lo \<le> hi)"
| "layout h lo (a # as) hi =
     (lo \<le> unat a \<and> layout h (unat a + unat PADDED_HEADER_SIZE + unat (size_f (h a))) as hi)"

text \<open>A well-formed directory with the blocks \<open>bs\<close>: the chain from \<^verbatim>\<open>heap_head\<close>, the
  back links, and the blocks laid out in the arena below the program break. No header
  lies in the first \<^verbatim>\<open>ALGN\<close> bytes of the address space.\<close>

definition wf_dir :: "state \<Rightarrow> addr list \<Rightarrow> bool" where
  "wf_dir st bs =
     (chain (hdr st) (heap_head st) bs \<and> back_links (hdr st) None bs \<and>
      layout (hdr st) (unat ALGN) bs (unat (brk st)))"

text \<open>\<open>seg h p bs q\<close>: following \<^verbatim>\<open>next\<close> from \<open>p\<close> visits \<open>bs\<close> and arrives at \<open>q\<close>;
  \<open>last_or p bs\<close> is the last header of \<open>bs\<close>, or \<open>p\<close> when there is none.\<close>

primrec seg :: "(addr \<Rightarrow> Header) \<Rightarrow> addr option \<Rightarrow> addr list \<Rightarrow> addr option \<Rightarrow> bool" where
  "seg h p [] q = (p = q)"
| "seg h p (a # as) q = (p = Some a \<and> seg h (next (h a)) as q)"

definition last_or :: "addr option \<Rightarrow> addr list \<Rightarrow> addr option" where
  "last_or p bs = (if bs = [] then p else Some (last bs))"

text \<open>The three statements by which both merges of \<^verbatim>\<open>free\<close> (lines 153-162 and lines
  173-179) let the block \<open>keep\<close> swallow its successor \<open>gone\<close>.\<close>

definition absorb :: "(addr \<Rightarrow> Header) \<Rightarrow> addr \<Rightarrow> addr \<Rightarrow> (addr \<Rightarrow> Header)" where
  "absorb h0 keep gone =
     (let h1 = set_size h0 keep (size_f (h0 keep) + (PADDED_HEADER_SIZE + size_f (h0 gone)));
          h2 = set_next h1 keep (next (h1 gone))
      in case next (h2 gone) of
           None \<Rightarrow> h2
         | Some n \<Rightarrow> set_prev h2 n (Some keep))"

text \<open>Invariant 2 of the specification: no free block is followed by a free block.\<close>

fun no_adjacent_free :: "(addr \<Rightarrow> Header) \<Rightarrow> addr list \<Rightarrow> bool" where
  "no_adjacent_free h (a # b # bs) =
     (\<not> (is_free (h a) \<and> is_free (h b)) \<and> no_adjacent_free h (b # bs))"
| "no_adjacent_free h bs = True"

section \<open>Concrete processes\<close>

text \<open>A process before its first allocation: no directory, the break at \<open>0x1000\<close> with
  16 MiB to grow into, \<^verbatim>\<open>DEBUG_MALLOC\<close> not in the environment.\<close>

definition fresh_process :: state where
  "fresh_process =
     \<lparr>heap_head = None,
      hdr = (\<lambda>_. \<lparr>size_f = 0, is_free = False, next = None, prev = None\<rparr>),
      mem = (\<lambda>_. 0), brk = 0x1000, brk_start = 0x1000, brk_limit = 0x1001000,
      errno = 0, debug_mode = - 1, environ = Map.empty, out = []\<rparr>"

text \<open>The fresh process right after the bootstrap (lines 39-67) of a first call
  \<^verbatim>\<open>malloc(100)\<close>.\<close>

definition bootstrapped :: state where
  "bootstrapped = the (the (heap_init fresh_process (align_up 100)))"

text \<open>The state a call left behind, and the pointer it returned.\<close>

definition state_of :: "('a \<times> state) option \<Rightarrow> state" where
  "state_of r = snd (the r)"

definition result_of :: "('a \<times> state) option \<Rightarrow> 'a" where
  "result_of r = fst (the r)"

text \<open>The process after \<^verbatim>\<open>p = malloc(100)\<close>, and after \<^verbatim>\<open>p = malloc(16)\<close>.\<close>

definition after_malloc_100 :: state where
  "after_malloc_100 = state_of (malloc fresh_process 100)"

definition after_malloc_16 :: state where
  "after_malloc_16 = state_of (malloc fresh_process 16)"

text \<open>The process after two and after three calls \<^verbatim>\<open>malloc(16)\<close>.\<close>

definition after_two_mallocs :: state where
  "after_two_mallocs = state_of (malloc after_malloc_16 16)"

definition after_three_mallocs :: state where
  "after_three_mallocs = state_of (malloc after_two_mallocs 16)"

text \<open>After two calls \<^verbatim>\<open>malloc(16)\<close>, the caller has stored two bytes in the first block;
  and the same process when the operating system will not move the break any further.\<close>

definition with_payload :: state where
  "with_payload = after_two_mallocs\<lparr>mem := (mem after_two_mallocs)(0x1020 := 0xAB, 0x1021 := 0xCD)\<rparr>"

definition exhausted :: state where
  "exhausted = with_payload\<lparr>brk_limit := 0x11000\<rparr>"

text \<open>\<^verbatim>\<open>free(p); free(q);\<close>\<close>

definition free_both :: "state \<Rightarrow> addr option \<Rightarrow> addr option \<Rightarrow> state option" where
  "free_both st p q = (case free st p of None \<Rightarrow> None | Some st1 \<Rightarrow> free st1 q)"

text \<open>After \<^verbatim>\<open>p = malloc(16)\<close> the caller has filled the 16 bytes of its block with
  \<open>0xFF\<close> and released it.\<close>

definition reused_process :: state where
  "reused_process =
     the (free (after_malloc_16\<lparr>mem := (\<lambda>a. if a - 0x1020 < 16 then 0xFF
                                             else mem after_malloc_16 a)\<rparr>) (Some 0x1020))"

section \<open>Evaluation of concrete runs\<close>

lemma PADDED_HEADER_SIZE_eq: "PADDED_HEADER_SIZE = 32"
  by (simp add: PADDED_HEADER_SIZE_def HEADER_SIZE_def ALGN_def)

lemmas field_writes = set_size_def set_is_free_def set_next_def set_prev_def

lemma HEADER_SIZE_eq: "HEADER_SIZE = 32"
  by (simp add: HEADER_SIZE_def)

lemmas mapped_defs = mapped_def mapped_end_def PAGE_SIZE_def HEADER_SIZE_eq

lemmas run_defs = malloc_def align_up_def ALGN_def PADDED_HEADER_SIZE_eq heap_init_def
  first_request_size_def sbrk_def mapped_defs first_fit.simps last_block.simps take_block_def
  split_block_def grow_def field_writes Let_def state_of_def result_of_def fresh_process_def

lemma after_malloc_100_fields:
  "heap_head after_malloc_100 = Some 0x1000"
  "brk after_malloc_100 = 0x11000"
  "hdr after_malloc_100 0x1000 = \<lparr>size_f = 112, is_free = False, next = Some 0x1090, prev = None\<rparr>"
  "hdr after_malloc_100 0x1090 = \<lparr>size_f = 65360, is_free = True, next = None, prev = Some 0x1000\<rparr>"
  by (simp_all add: after_malloc_100_def run_defs)

lemma after_malloc_16_fields:
  "heap_head after_malloc_16 = Some 0x1000"
  "brk after_malloc_16 = 0x11000"
  "hdr after_malloc_16 0x1000 = \<lparr>size_f = 16, is_free = False, next = Some 0x1030, prev = None\<rparr>"
  "hdr after_malloc_16 0x1030 = \<lparr>size_f = 65456, is_free = True, next = None, prev = Some 0x1000\<rparr>"
  by (simp_all add: after_malloc_16_def run_defs)

lemma after_two_mallocs_fields:
  "heap_head after_two_mallocs = Some 0x1000"
  "brk after_two_mallocs = 0x11000"
  "hdr after_two_mallocs 0x1000 = \<lparr>size_f = 16, is_free = False, next = Some 0x1030, prev = None\<rparr>"
  "hdr after_two_mallocs 0x1030 = \<lparr>size_f = 16, is_free = False, next = Some 0x1060, prev = Some 0x1000\<rparr>"
  "hdr after_two_mallocs 0x1060 = \<lparr>size_f = 65408, is_free = True, next = None, prev = Some 0x1030\<rparr>"
  by (simp_all add: after_two_mallocs_def after_malloc_16_fields malloc_def align_up_def ALGN_def
      PADDED_HEADER_SIZE_eq first_fit.simps take_block_def split_block_def field_writes Let_def
      state_of_def)

lemma after_three_mallocs_fields:
  "heap_head after_three_mallocs = Some 0x1000"
  "brk after_three_mallocs = 0x11000"
  "hdr after_three_mallocs 0x1000 = \<lparr>size_f = 16, is_free = False, next = Some 0x1030, prev = None\<rparr>"
  "hdr after_three_mallocs 0x1030 = \<lparr>size_f = 16, is_free = False, next = Some 0x1060, prev = Some 0x1000\<rparr>"
  "hdr after_three_mallocs 0x1060 = \<lparr>size_f = 16, is_free = False, next = Some 0x1090, prev = Some 0x1030\<rparr>"
  "hdr after_three_mallocs 0x1090 = \<lparr>size_f = 65360, is_free = True, next = None, prev = Some 0x1060\<rparr>"
  by (simp_all add: after_three_mallocs_def after_two_mallocs_fields malloc_def align_up_def ALGN_def
      PADDED_HEADER_SIZE_eq first_fit.simps take_block_def split_block_def field_writes Let_def
      state_of_def)

lemma bootstrapped_fields:
  "heap_init fresh_process (align_up 100) = Some (Some bootstrapped)"
  "heap_head bootstrapped = Some 0x1000"
  "brk bootstrapped = 0x11000"
  "hdr bootstrapped 0x1000 = \<lparr>size_f = 65504, is_free = True, next = None, prev = None\<rparr>"
  by (simp_all add: bootstrapped_def run_defs)

lemmas free_run_defs = free_both_def free_def merge_next.simps merge_prev_def field_writes Let_def
  PADDED_HEADER_SIZE_eq

lemma with_payload_fields:
  "heap_head with_payload = Some 0x1000"
  "brk with_payload = 0x11000"
  "hdr with_payload = hdr after_two_mallocs"
  "mem with_payload 0x1020 = 0xAB" "mem with_payload 0x1021 = 0xCD"
  "heap_head exhausted = Some 0x1000"
  "brk exhausted = 0x11000" "brk_limit exhausted = 0x11000"
  "hdr exhausted = hdr after_two_mallocs"
  by (simp_all add: with_payload_def exhausted_def after_two_mallocs_fields)

lemma after_malloc_16_mem: "mem after_malloc_16 = (\<lambda>_. 0)"
  by (simp add: after_malloc_16_def run_defs)

lemma reused_process_fields:
  "heap_head reused_process = Some 0x1000"
  "brk reused_process = 0x11000"
  "hdr reused_process 0x1000 = \<lparr>size_f = 65504, is_free = True, next = None, prev = None\<rparr>"
  "mem reused_process = (\<lambda>a. if a - 0x1020 < 16 then 0xFF else 0)"
  by (simp_all add: reused_process_def after_malloc_16_fields after_malloc_16_mem free_run_defs
      cong: if_cong)

section \<open>Chains, back links and layout\<close>

lemma chain_unique: "chain h p as \<Longrightarrow> chain h p bs \<Longrightarrow> as = bs"
proof (induction as arbitrary: p bs)
  case Nil
  then show ?case by (cases bs) auto
next
  case (Cons a as)
  then show ?case by (cases bs) auto
qed

lemma chain_suffix: "chain h p (pre @ c # post) \<Longrightarrow> chain h (next (h c)) post"
  by (induction pre arbitrary: p) auto

lemma chain_not_in_tail:
  assumes "chain h (next (h c)) post"
  shows "c \<notin> set post"
proof
  assume "c \<in> set post"
  then obtain xs ys where post: "post = xs @ c # ys"
    by (auto simp: in_set_conv_decomp)
  with assms have "chain h (next (h c)) ys"
    using chain_suffix by blast
  with assms have "post = ys" by (rule chain_unique)
  with post show False by simp
qed

lemma chain_distinct: "chain h p bs \<Longrightarrow> distinct bs"
  by (induction bs arbitrary: p) (auto dest: chain_not_in_tail)

lemma chain_next_in_post:
  "chain h (next (h c)) post \<Longrightarrow> next (h c) = Some n \<Longrightarrow> n \<in> set post"
  by (cases post) auto

lemma chain_cong:
  "(\<And>b. b \<in> set bs \<Longrightarrow> next (h' b) = next (h b)) \<Longrightarrow> chain h' p bs = chain h p bs"
  by (induction bs arbitrary: p) auto

lemma back_links_cong:
  "(\<And>b. b \<in> set bs \<Longrightarrow> prev (h' b) = prev (h b)) \<Longrightarrow> back_links h' p bs = back_links h p bs"
  by (induction bs arbitrary: p) auto

lemma layout_cong:
  "(\<And>b. b \<in> set bs \<Longrightarrow> size_f (h' b) = size_f (h b)) \<Longrightarrow>
   layout h' lo bs hi = layout h lo bs hi"
  by (induction bs arbitrary: lo) auto

lemma layout_mono: "layout h lo bs hi \<Longrightarrow> lo' \<le> lo \<Longrightarrow> hi \<le> hi' \<Longrightarrow> layout h lo' bs hi'"
  by (induction bs arbitrary: lo lo') auto

lemma layout_le: "layout h lo bs hi \<Longrightarrow> lo \<le> hi"
  by (induction bs arbitrary: lo) fastforce+

lemma layout_bounds:
  "layout h lo bs hi \<Longrightarrow> x \<in> set bs \<Longrightarrow>
   lo \<le> unat x \<and> unat x + unat PADDED_HEADER_SIZE + unat (size_f (h x)) \<le> hi"
proof (induction bs arbitrary: lo)
  case Nil
  then show ?case by simp
next
  case (Cons a as)
  show ?case
  proof (cases "x = a")
    case True
    with Cons.prems layout_le [of h _ as hi] show ?thesis by auto
  next
    case False
    with Cons.prems have "x \<in> set as"
      and "layout h (unat a + unat PADDED_HEADER_SIZE + unat (size_f (h a))) as hi"
      and "lo \<le> unat a" by auto
    with Cons.IH [of "unat a + unat PADDED_HEADER_SIZE + unat (size_f (h a))"]
    show ?thesis by auto
  qed
qed

lemma chain_split:
  "chain h p (pre @ c # post) = (seg h p pre (Some c) \<and> chain h (next (h c)) post)"
  by (induction pre arbitrary: p) auto

lemma back_links_split:
  "back_links h p (pre @ c # post) =
     (back_links h p pre \<and> prev (h c) = last_or p pre \<and> back_links h (Some c) post)"
  by (induction pre arbitrary: p) (auto simp: last_or_def)

lemma layout_split:
  "layout h lo (pre @ c # post) hi =
     (layout h lo pre (unat c) \<and>
      layout h (unat c + unat PADDED_HEADER_SIZE + unat (size_f (h c))) post hi)"
  by (induction pre arbitrary: lo) auto

lemma seg_cong:
  "(\<And>b. b \<in> set bs \<Longrightarrow> next (h' b) = next (h b)) \<Longrightarrow> seg h' p bs q = seg h p bs q"
  by (induction bs arbitrary: p) auto

lemma wf_dir_cong:
  assumes "\<And>x. x \<in> set bs \<Longrightarrow>
      next (hdr st' x) = next (hdr st x) \<and> prev (hdr st' x) = prev (hdr st x) \<and>
      size_f (hdr st' x) = size_f (hdr st x)"
    and "heap_head st' = heap_head st" and "brk st' = brk st"
  shows "wf_dir st' bs = wf_dir st bs"
  using assms
  by (simp add: wf_dir_def chain_cong [of bs "hdr st'" "hdr st"]
      back_links_cong [of bs "hdr st'" "hdr st"] layout_cong [of bs "hdr st'" "hdr st"])

section \<open>Well-formed directories of the concrete processes\<close>

lemma after_malloc_100_wf: "wf_dir after_malloc_100 [0x1000, 0x1090]"
  by (simp add: wf_dir_def after_malloc_100_fields PADDED_HEADER_SIZE_eq ALGN_def)

lemma after_three_mallocs_wf: "wf_dir after_three_mallocs [0x1000, 0x1030, 0x1060, 0x1090]"
  by (simp add: wf_dir_def after_three_mallocs_fields PADDED_HEADER_SIZE_eq ALGN_def)

lemma bootstrapped_wf: "wf_dir bootstrapped [0x1000]"
  by (simp add: wf_dir_def bootstrapped_fields PADDED_HEADER_SIZE_eq ALGN_def)

lemma with_payload_wf:
  "wf_dir with_payload [0x1000, 0x1030, 0x1060]" "wf_dir exhausted [0x1000, 0x1030, 0x1060]"
  by (simp_all add: wf_dir_def with_payload_fields after_two_mallocs_fields
      PADDED_HEADER_SIZE_eq ALGN_def)

lemma reused_process_wf: "wf_dir reused_process [0x1000]"
  by (simp add: wf_dir_def reused_process_fields PADDED_HEADER_SIZE_eq ALGN_def)

section \<open>The loops on a chain\<close>

lemma first_fit_chain:
  "chain h p bs \<Longrightarrow>
   first_fit h p sz = Some (find (\<lambda>b. is_free (h b) \<and> sz \<le> size_f (h b)) bs)"
proof (induction bs arbitrary: p)
  case Nil
  then show ?case by (simp add: first_fit.simps)
next
  case (Cons a as)
  then have p: "p = Some a" and tl: "chain h (next (h a)) as" by auto
  show ?case
    by (subst first_fit.simps) (simp add: p Cons.IH [OF tl])
qed

lemma find_first:
  "\<forall>b\<in>set pre. \<not> P b \<Longrightarrow> P c \<Longrightarrow> find P (pre @ c # post) = Some c"
  by (induction pre) auto

lemma last_block_chain:
  "chain h (next (h a)) as \<Longrightarrow> last_block h a = Some (last (a # as))"
proof (induction as arbitrary: a)
  case Nil
  then show ?case by (subst last_block.simps) simp
next
  case (Cons b bs)
  then have n: "next (h a) = Some b" and tl: "chain h (next (h b)) bs" by auto
  show ?case
    by (subst last_block.simps) (simp add: n Cons.IH [OF tl])
qed

section \<open>Arithmetic without wrap-around\<close>

lemma unat_add_nowrap:
  fixes x y :: size_t
  shows "unat x + unat y < 2 ^ 64 \<Longrightarrow> unat (x + y) = unat x + unat y"
  using unat_add_lem [of x y] by simp

lemma split_arith:
  fixes c a s :: size_t
  assumes lo: "unat ALGN \<le> unat c"
    and hi: "unat c + unat PADDED_HEADER_SIZE + unat s \<le> hi" "hi < 2 ^ 64"
    and fit: "a \<le> s" and big: "a + PADDED_HEADER_SIZE + ALGN \<le> s"
  shows "unat (c + PADDED_HEADER_SIZE + a) = unat c + 32 + unat a"
    and "unat (s - a - PADDED_HEADER_SIZE) = unat s - unat a - 32"
    and "unat a + 48 \<le> unat s"
proof -
  have A: "unat a \<le> unat s" using fit by (simp add: word_le_nat_alt)
  have C: "16 \<le> unat c" "unat c + 32 + unat s < 2 ^ 64"
    using lo hi by (simp_all add: ALGN_def PADDED_HEADER_SIZE_eq)
  have B: "unat (a + 48) \<le> unat s"
    using big by (simp add: word_le_nat_alt PADDED_HEADER_SIZE_eq ALGN_def add.assoc)
  have "unat (a + 48) = unat a + unat (48 :: size_t)"
    by (rule unat_add_nowrap) (use A C in simp)
  with B show 3: "unat a + 48 \<le> unat s" by simp
  have c32: "unat (c + 32) = unat c + unat (32 :: size_t)"
    by (rule unat_add_nowrap) (use C in simp)
  have "unat (c + 32 + a) = unat (c + 32) + unat a"
    by (rule unat_add_nowrap) (use A C c32 in simp)
  then show "unat (c + PADDED_HEADER_SIZE + a) = unat c + 32 + unat a"
    using c32 by (simp add: PADDED_HEADER_SIZE_eq)
  have sa: "unat (s - a) = unat s - unat a" using fit by (rule unat_sub)
  have "(32 :: size_t) \<le> s - a" using 3 sa by (simp add: word_le_nat_alt)
  then have "unat (s - a - 32) = unat (s - a) - unat (32 :: size_t)" by (rule unat_sub)
  then show "unat (s - a - PADDED_HEADER_SIZE) = unat s - unat a - 32"
    using sa by (simp add: PADDED_HEADER_SIZE_eq)
qed

lemma overflow_guard:
  fixes nmemb sz :: size_t
  shows "(nmemb > 0 \<and> sz > 0 \<and> nmemb > SIZE_MAX div sz) = (2 ^ 64 \<le> unat nmemb * unat sz)"
proof (cases "sz = 0")
  case True
  then show ?thesis by simp
next
  case False
  then have s: "0 < unat sz" by (simp add: unat_gt_0)
  have m: "unat SIZE_MAX = 2 ^ 64 - 1" by (simp add: SIZE_MAX_def unsigned_minus_1_eq_mask mask_eq_exp_minus_1)
  have "(nmemb > SIZE_MAX div sz) = (unat nmemb > (2 ^ 64 - 1) div unat sz)"
    by (simp add: word_less_nat_alt unat_div m)
  also have "\<dots> = (2 ^ 64 - 1 < unat nmemb * unat sz)"
    using s by (rule div_less_iff_less_mult)
  also have "\<dots> = (2 ^ 64 \<le> unat nmemb * unat sz)" by auto
  finally have "(nmemb > SIZE_MAX div sz) = (2 ^ 64 \<le> unat nmemb * unat sz)" .
  moreover have "2 ^ 64 \<le> unat nmemb * unat sz \<Longrightarrow> nmemb > 0"
    by (cases "nmemb = 0") (auto simp: word_greater_zero_iff)
  ultimately show ?thesis using False by (auto simp: word_greater_zero_iff)
qed

section \<open>The split of a block and first fit\<close>

lemma split_block_at:
  assumes "nb = c + PADDED_HEADER_SIZE + a" and "nb \<noteq> c"
    and "next (h c) \<noteq> Some nb" and "next (h c) \<noteq> Some c"
  shows "split_block h c a c = (h c)\<lparr>size_f := a, next := Some nb\<rparr>"
    and "split_block h c a nb = \<lparr>size_f = size_f (h c) - a - PADDED_HEADER_SIZE, is_free = True,
                               next = next (h c), prev = Some c\<rparr>"
    and "\<And>n. next (h c) = Some n \<Longrightarrow> split_block h c a n = (h n)\<lparr>prev := Some nb\<rparr>"
    and "\<And>x. x \<noteq> c \<Longrightarrow> x \<noteq> nb \<Longrightarrow> next (h c) \<noteq> Some x \<Longrightarrow> split_block h c a x = h x"
  using assms
  by (cases "next (h c)"; simp add: split_block_def field_writes Let_def)+

lemma take_block_split_wf:
  assumes ch: "chain h p (pre @ c # post)"
    and bl: "back_links h None (pre @ c # post)"
    and lay: "layout h (unat ALGN) (pre @ c # post) hi" and hi: "hi < 2 ^ 64"
    and fit: "a \<le> size_f (h c)" and big: "a + PADDED_HEADER_SIZE + ALGN \<le> size_f (h c)"
    and nb: "nb = c + PADDED_HEADER_SIZE + a"
    and h': "h' = take_block h c a"
  shows "chain h' p (pre @ c # nb # post) \<and>
         back_links h' None (pre @ c # nb # post) \<and>
         layout h' (unat ALGN) (pre @ c # nb # post) hi \<and>
         h' c = (h c)\<lparr>size_f := a, is_free := False, next := Some nb\<rparr> \<and>
         h' nb = \<lparr>size_f = size_f (h c) - a - PADDED_HEADER_SIZE, is_free = True,
                   next = next (h c), prev = Some c\<rparr> \<and>
         (\<forall>x\<in>set pre \<union> set post.
            size_f (h' x) = size_f (h x) \<and> is_free (h' x) = is_free (h x))"
proof -
  let ?S = "unat (size_f (h c))"
  have dist: "distinct (pre @ c # post)" using ch by (rule chain_distinct)
  then have c_pre: "c \<notin> set pre" and c_post: "c \<notin> set post"
    and disj: "\<And>x. x \<in> set pre \<Longrightarrow> x \<notin> set post" by auto
  from lay have L1: "layout h (unat ALGN) pre (unat c)"
    and L2: "layout h (unat c + unat PADDED_HEADER_SIZE + ?S) post hi"
    by (simp_all add: layout_split)
  from L1 have lo: "unat ALGN \<le> unat c" by (rule layout_le)
  from L2 have up: "unat c + unat PADDED_HEADER_SIZE + ?S \<le> hi" by (rule layout_le)
  note ar = split_arith [OF lo up hi fit big]
  have unb: "unat nb = unat c + 32 + unat a" using ar(1) nb by simp
  have pre_lt: "\<And>x. x \<in> set pre \<Longrightarrow> unat x < unat c"
    using layout_bounds [OF L1] by (fastforce simp: PADDED_HEADER_SIZE_eq)
  have post_ge: "\<And>x. x \<in> set post \<Longrightarrow> unat c + 32 + ?S \<le> unat x"
    using layout_bounds [OF L2] by (fastforce simp: PADDED_HEADER_SIZE_eq)
  have nb_c: "nb \<noteq> c" using unb by auto
  have nb_pre: "nb \<notin> set pre" using pre_lt unb by fastforce
  have nb_post: "nb \<notin> set post" using post_ge unb ar(3) by fastforce
  from ch have tl: "chain h (next (h c)) post" by (simp add: chain_split)
  have nx: "\<And>n. next (h c) = Some n \<Longrightarrow> n \<in> set post"
    using tl by (rule chain_next_in_post)
  have n1: "next (h c) \<noteq> Some nb" using nx nb_post by blast
  have n2: "next (h c) \<noteq> Some c" using nx c_post by blast
  note sp = split_block_at [where nb=nb and c=c and a=a and h=h, OF nb nb_c n1 n2]
  have tb: "h' = set_is_free (split_block h c a) c False"
    using big h' by (simp add: take_block_def)
  have at_c: "h' c = (h c)\<lparr>size_f := a, is_free := False, next := Some nb\<rparr>"
    by (simp add: tb set_is_free_def sp(1))
  have at_nb: "h' nb = \<lparr>size_f = size_f (h c) - a - PADDED_HEADER_SIZE, is_free = True,
                   next = next (h c), prev = Some c\<rparr>"
    using nb_c by (simp add: tb set_is_free_def sp(2))
  have at_pre: "\<And>x. x \<in> set pre \<Longrightarrow> h' x = h x"
  proof -
    fix x assume x: "x \<in> set pre"
    then have "x \<noteq> c" "x \<noteq> nb" "next (h c) \<noteq> Some x"
      using c_pre nb_pre nx disj by blast+
    then show "h' x = h x" by (simp add: tb set_is_free_def sp(4))
  qed
  have at_post: "\<And>x. x \<in> set post \<Longrightarrow> h' x = h x \<or> h' x = (h x)\<lparr>prev := Some nb\<rparr>"
  proof -
    fix x assume x: "x \<in> set post"
    then have ne: "x \<noteq> c" "x \<noteq> nb" using c_post nb_post by blast+
    show "h' x = h x \<or> h' x = (h x)\<lparr>prev := Some nb\<rparr>"
    proof (cases "next (h c) = Some x")
      case True
      then show ?thesis using ne by (simp add: tb set_is_free_def sp(3))
    next
      case False
      then show ?thesis using ne by (simp add: tb set_is_free_def sp(4))
    qed
  qed
  have post_same: "\<And>x. x \<in> set post \<Longrightarrow>
      next (h' x) = next (h x) \<and> size_f (h' x) = size_f (h x) \<and> is_free (h' x) = is_free (h x)"
    using at_post by fastforce
  have 1: "chain h' p (pre @ c # nb # post)"
  proof -
    have "seg h' p pre (Some c)"
      using ch at_pre by (simp add: chain_split seg_cong [of pre h' h])
    moreover have "chain h' (next (h c)) post"
      using tl post_same by (simp add: chain_cong [of post h' h])
    ultimately show ?thesis by (simp add: chain_split at_c at_nb)
  qed
  have 2: "back_links h' None (pre @ c # nb # post)"
  proof -
    from bl have b1: "back_links h None pre" and b2: "prev (h c) = last_or None pre"
      and b3: "back_links h (Some c) post" by (simp_all add: back_links_split)
    have "back_links h' None pre"
      using b1 at_pre by (simp add: back_links_cong [of pre h' h])
    moreover have "back_links h' (Some nb) post"
    proof (cases post)
      case Nil
      then show ?thesis by simp
    next
      case (Cons n ps)
      with tl have nxt: "next (h c) = Some n" by simp
      from dist Cons have n_ps: "n \<notin> set ps" by simp
      have "\<And>x. x \<in> set ps \<Longrightarrow> h' x = h x"
      proof -
        fix x assume x: "x \<in> set ps"
        then have "x \<noteq> c" "x \<noteq> nb" "next (h c) \<noteq> Some x"
          using c_post nb_post Cons nxt n_ps by auto
        then show "h' x = h x" by (simp add: tb set_is_free_def sp(4))
      qed
      then have "back_links h' (Some n) ps = back_links h (Some n) ps"
        by (simp add: back_links_cong [of ps h' h])
      moreover have "h' n = (h n)\<lparr>prev := Some nb\<rparr>"
        using nxt c_post nb_post Cons by (auto simp: tb set_is_free_def sp(3))
      ultimately show ?thesis using b3 Cons by simp
    qed
    ultimately show ?thesis using b2 by (simp add: back_links_split at_c at_nb)
  qed
  have 3: "layout h' (unat ALGN) (pre @ c # nb # post) hi"
  proof -
    have e: "unat nb + unat PADDED_HEADER_SIZE + unat (size_f (h' nb)) =
             unat c + unat PADDED_HEADER_SIZE + ?S"
      using ar unb by (simp add: at_nb PADDED_HEADER_SIZE_eq)
    have f: "unat c + unat PADDED_HEADER_SIZE + unat (size_f (h' c)) = unat nb"
      using unb by (simp add: at_c PADDED_HEADER_SIZE_eq)
    have "layout h' (unat ALGN) pre (unat c)"
      using L1 at_pre by (simp add: layout_cong [of pre h' h])
    moreover have "layout h' (unat c + unat PADDED_HEADER_SIZE + ?S) post hi"
      using L2 post_same by (simp add: layout_cong [of post h' h])
    ultimately show ?thesis
      unfolding layout_split layout.simps f e by simp
  qed
  show ?thesis
    using 1 2 3 at_c at_nb at_pre post_same by auto
qed

lemma malloc_takes_first_fit:
  assumes wf: "wf_dir st (pre @ c # post)" and req: "req \<noteq> 0"
    and pre: "\<forall>b\<in>set pre. \<not> (is_free (hdr st b) \<and> align_up req \<le> size_f (hdr st b))"
    and free: "is_free (hdr st c)" and fit: "align_up req \<le> size_f (hdr st c)"
  shows "malloc st req =
           Some (Some (c + PADDED_HEADER_SIZE), st\<lparr>hdr := take_block (hdr st) c (align_up req)\<rparr>)"
proof -
  from wf have ch: "chain (hdr st) (heap_head st) (pre @ c # post)"
    by (simp add: wf_dir_def)
  then obtain head where hd: "heap_head st = Some head" by (cases pre) auto
  have "first_fit (hdr st) (heap_head st) (align_up req) = Some (Some c)"
    using pre free fit
    by (simp add: first_fit_chain [OF ch]
        find_first [of pre "\<lambda>b. is_free (hdr st b) \<and> align_up req \<le> size_f (hdr st b)"])
  then show ?thesis using req
    by (simp add: malloc_def Let_def hd)
qed

lemma malloc_first_fit_effect:
  assumes wf: "wf_dir st (pre @ c # post)" and req: "req \<noteq> 0"
    and pre: "\<forall>b\<in>set pre. \<not> (is_free (hdr st b) \<and> align_up req \<le> size_f (hdr st b))"
    and free: "is_free (hdr st c)" and fit: "align_up req \<le> size_f (hdr st c)"
  shows "\<exists>st'. malloc st req = Some (Some (c + PADDED_HEADER_SIZE), st') \<and>
           \<not> is_free (hdr st' c) \<and> prev (hdr st' c) = prev (hdr st c) \<and>
           (\<forall>x\<in>set pre \<union> set post.
              size_f (hdr st' x) = size_f (hdr st x) \<and>
              is_free (hdr st' x) = is_free (hdr st x)) \<and>
           heap_head st' = heap_head st \<and> brk st' = brk st \<and> mem st' = mem st \<and>
           (if align_up req + PADDED_HEADER_SIZE + ALGN \<le> size_f (hdr st c)
            then wf_dir st' (pre @ c # (c + PADDED_HEADER_SIZE + align_up req) # post) \<and>
                 size_f (hdr st' c) = align_up req \<and>
                 next (hdr st' c) = Some (c + PADDED_HEADER_SIZE + align_up req) \<and>
                 hdr st' (c + PADDED_HEADER_SIZE + align_up req) =
                   \<lparr>size_f = size_f (hdr st c) - align_up req - PADDED_HEADER_SIZE,
                    is_free = True, next = next (hdr st c), prev = Some c\<rparr>
            else wf_dir st' (pre @ c # post) \<and>
                 hdr st' = (hdr st)(c := (hdr st c)\<lparr>is_free := False\<rparr>))"
proof -
  let ?a = "align_up req"
  let ?st' = "st\<lparr>hdr := take_block (hdr st) c ?a\<rparr>"
  have m: "malloc st req = Some (Some (c + PADDED_HEADER_SIZE), ?st')"
    using assms by (rule malloc_takes_first_fit)
  from wf have ch: "chain (hdr st) (heap_head st) (pre @ c # post)"
    and bl: "back_links (hdr st) None (pre @ c # post)"
    and lay: "layout (hdr st) (unat ALGN) (pre @ c # post) (unat (brk st))"
    by (simp_all add: wf_dir_def)
  have hi: "unat (brk st) < 2 ^ 64" using unsigned_less [of "brk st"] by simp
  show ?thesis
  proof (cases "?a + PADDED_HEADER_SIZE + ALGN \<le> size_f (hdr st c)")
    case True
    from take_block_split_wf [OF ch bl lay hi fit True refl refl]
    show ?thesis using m True by (auto simp: wf_dir_def)
  next
    case False
    then have tb: "take_block (hdr st) c ?a = (hdr st)(c := (hdr st c)\<lparr>is_free := False\<rparr>)"
      by (simp add: take_block_def set_is_free_def)
    have "wf_dir ?st' (pre @ c # post) = wf_dir st (pre @ c # post)"
      by (rule wf_dir_cong) (simp_all add: tb)
    moreover have "c \<notin> set pre \<union> set post"
      using chain_distinct [OF ch] by auto
    ultimately show ?thesis using wf m False by (auto simp: tb)
  qed
qed

lemma malloc_after_init:
  assumes req: "req \<noteq> 0"
    and init: "(if heap_head st = None then heap_init st (align_up req) else Some (Some st)) =
               Some (Some st1)"
  shows "malloc st req = malloc st1 req"
proof (cases "heap_head st = None")
  case True
  with init have hi: "heap_init st (align_up req) = Some (Some st1)" by simp
  then obtain block where "heap_head st1 = Some block"
    by (auto simp: heap_init_def Let_def split: prod.splits option.splits if_splits)
  then show ?thesis using req True hi by (simp add: malloc_def Let_def)
next
  case False
  with init show ?thesis by simp
qed

section \<open>Merging a block with its successor\<close>

lemma merge_next_absorb:
  "merge_next h c =
     (case next (h c) of
        None \<Rightarrow> Some h
      | Some n \<Rightarrow> if is_free (h n) then merge_next (absorb h c n) c else Some h)"
  by (subst merge_next.simps) (simp add: absorb_def Let_def split: option.splits)

lemma merge_prev_absorb:
  "merge_prev h c =
     (case prev (h c) of
        None \<Rightarrow> h
      | Some q \<Rightarrow> if is_free (h q) then absorb h q c else h)"
  by (simp add: merge_prev_def absorb_def Let_def split: option.splits)

lemma absorb_at:
  assumes "k \<noteq> g" and "next (h g) \<noteq> Some k"
  shows "absorb h k g k =
           (h k)\<lparr>size_f := size_f (h k) + (PADDED_HEADER_SIZE + size_f (h g)),
                  next := next (h g)\<rparr>"
    and "\<And>x. x \<noteq> k \<Longrightarrow> next (h g) = Some x \<Longrightarrow> absorb h k g x = (h x)\<lparr>prev := Some k\<rparr>"
    and "\<And>x. x \<noteq> k \<Longrightarrow> next (h g) \<noteq> Some x \<Longrightarrow> absorb h k g x = h x"
  using assms
  by (cases "next (h g)"; simp add: absorb_def field_writes Let_def)+

lemma is_free_field_writes:
  "is_free (set_size h p v x) = is_free (h x)"
  "is_free (set_next h p w x) = is_free (h x)"
  "is_free (set_prev h p w x) = is_free (h x)"
  by (simp_all add: field_writes)

lemma absorb_is_free: "is_free (absorb h k g x) = is_free (h x)"
  by (simp add: absorb_def Let_def is_free_field_writes split: option.splits)

lemma absorb_wf:
  assumes ch: "chain h p (pre @ k # g # post)"
    and bl: "back_links h q0 (pre @ k # g # post)"
    and lay: "layout h lo (pre @ k # g # post) hi" and hi: "hi < 2 ^ 64"
    and h': "h' = absorb h k g"
  shows "chain h' p (pre @ k # post) \<and>
         back_links h' q0 (pre @ k # post) \<and>
         layout h' lo (pre @ k # post) hi \<and>
         h' k = (h k)\<lparr>size_f := size_f (h k) + (PADDED_HEADER_SIZE + size_f (h g)),
                       next := next (h g)\<rparr> \<and>
         unat (size_f (h' k)) = unat (size_f (h k)) + 32 + unat (size_f (h g)) \<and>
         (\<forall>x\<in>set pre. h' x = h x) \<and>
         (\<forall>x\<in>set post. size_f (h' x) = size_f (h x) \<and> next (h' x) = next (h x)) \<and>
         (\<forall>x. x \<notin> set (k # post) \<longrightarrow> h' x = h x)"
proof -
  let ?K = "unat k + unat PADDED_HEADER_SIZE + unat (size_f (h k))"
  let ?G = "unat g + unat PADDED_HEADER_SIZE + unat (size_f (h g))"
  have dist: "distinct (pre @ k # g # post)" using ch by (rule chain_distinct)
  then have kg: "k \<noteq> g" and k_post: "k \<notin> set post" and g_post: "g \<notin> set post"
    and k_pre: "k \<notin> set pre"
    and disj: "\<And>x. x \<in> set pre \<Longrightarrow> x \<notin> set post" by auto
  from ch have sg: "seg h p pre (Some k)" and nk: "next (h k) = Some g"
    and tl: "chain h (next (h g)) post"
    by (simp_all add: chain_split)
  have nx: "\<And>n. next (h g) = Some n \<Longrightarrow> n \<in> set post"
    using tl by (rule chain_next_in_post)
  have n1: "next (h g) \<noteq> Some k" using nx k_post by blast
  note ab = absorb_at [where h=h and k=k and g=g, OF kg n1]
  have at_k: "h' k = (h k)\<lparr>size_f := size_f (h k) + (PADDED_HEADER_SIZE + size_f (h g)),
                       next := next (h g)\<rparr>"
    by (simp add: h' ab(1))
  have frame: "\<And>x. x \<notin> set (k # post) \<Longrightarrow> h' x = h x"
  proof -
    fix x assume "x \<notin> set (k # post)"
    then have "x \<noteq> k" "next (h g) \<noteq> Some x" using nx by auto
    then show "h' x = h x" by (simp add: h' ab(3))
  qed
  have at_pre: "\<And>x. x \<in> set pre \<Longrightarrow> h' x = h x"
  proof -
    fix x assume "x \<in> set pre"
    then have "x \<notin> set (k # post)" using k_pre disj by auto
    then show "h' x = h x" by (rule frame)
  qed
  have at_post: "\<And>x. x \<in> set post \<Longrightarrow> h' x = h x \<or> h' x = (h x)\<lparr>prev := Some k\<rparr>"
  proof -
    fix x assume x: "x \<in> set post"
    then have ne: "x \<noteq> k" using k_post by blast
    show "h' x = h x \<or> h' x = (h x)\<lparr>prev := Some k\<rparr>"
      using ne by (cases "next (h g) = Some x") (simp_all add: h' ab(2,3))
  qed
  have post_same: "\<And>x. x \<in> set post \<Longrightarrow>
      next (h' x) = next (h x) \<and> size_f (h' x) = size_f (h x)"
    using at_post by fastforce
  have 1: "chain h' p (pre @ k # post)"
  proof -
    have "seg h' p pre (Some k)"
      using sg at_pre by (simp add: seg_cong [of pre h' h])
    moreover have "chain h' (next (h g)) post"
      using tl post_same by (simp add: chain_cong [of post h' h])
    ultimately show ?thesis by (simp add: chain_split at_k)
  qed
  have 2: "back_links h' q0 (pre @ k # post)"
  proof -
    from bl have b1: "back_links h q0 pre" and b2: "prev (h k) = last_or q0 pre"
      and b3: "back_links h (Some g) post" by (simp_all add: back_links_split)
    have "back_links h' q0 pre"
      using b1 at_pre by (simp add: back_links_cong [of pre h' h])
    moreover have "back_links h' (Some k) post"
    proof (cases post)
      case Nil
      then show ?thesis by simp
    next
      case (Cons n ps)
      with tl have nxt: "next (h g) = Some n" by simp
      from dist Cons have n_ps: "n \<notin> set ps" by simp
      have "\<And>x. x \<in> set ps \<Longrightarrow> h' x = h x"
      proof -
        fix x assume x: "x \<in> set ps"
        then have "x \<noteq> k" "next (h g) \<noteq> Some x"
          using k_post Cons nxt n_ps by auto
        then show "h' x = h x" by (simp add: h' ab(3))
      qed
      then have "back_links h' (Some n) ps = back_links h (Some n) ps"
        by (simp add: back_links_cong [of ps h' h])
      moreover have "h' n = (h n)\<lparr>prev := Some k\<rparr>"
        using nxt k_post Cons by (auto simp: h' ab(2))
      ultimately show ?thesis using b3 Cons by simp
    qed
    ultimately show ?thesis using b2 by (simp add: back_links_split at_k)
  qed
  from lay have L1: "layout h lo pre (unat k)" and L2: "?K \<le> unat g"
    and L3: "layout h ?G post hi"
    by (simp_all add: layout_split)
  from L3 have up: "?G \<le> hi" by (rule layout_le)
  have sz: "unat (size_f (h' k)) = unat (size_f (h k)) + 32 + unat (size_f (h g))"
  proof -
    have a: "unat (32 + size_f (h g)) = unat (32 :: size_t) + unat (size_f (h g))"
      by (rule unat_add_nowrap) (use up hi in \<open>simp add: PADDED_HEADER_SIZE_eq\<close>)
    have "unat (size_f (h k) + (32 + size_f (h g))) =
          unat (size_f (h k)) + unat (32 + size_f (h g))"
      by (rule unat_add_nowrap) (use up hi L2 a in \<open>simp add: PADDED_HEADER_SIZE_eq\<close>)
    with a show ?thesis by (simp add: at_k PADDED_HEADER_SIZE_eq)
  qed
  have 3: "layout h' lo (pre @ k # post) hi"
  proof -
    have "layout h' lo pre (unat k)"
      using L1 at_pre by (simp add: layout_cong [of pre h' h])
    moreover have "layout h' ?G post hi"
      using L3 post_same by (simp add: layout_cong [of post h' h])
    then have "layout h' (unat k + unat PADDED_HEADER_SIZE + unat (size_f (h' k))) post hi"
      by (rule layout_mono) (use L2 sz in \<open>simp_all add: PADDED_HEADER_SIZE_eq\<close>)
    ultimately show ?thesis by (simp only: layout_split simp_thms)
  qed
  show ?thesis
    using 1 2 3 at_k sz at_pre post_same frame by blast
qed

section \<open>free\<close>

lemma header_of_payload [simp]: "c + PADDED_HEADER_SIZE - PADDED_HEADER_SIZE = c"
  by simp

lemma free_plain:
  assumes "\<not> is_free (hdr st c)"
    and "\<And>n. next (hdr st c) = Some n \<Longrightarrow> \<not> is_free (hdr st n) \<and> n \<noteq> c"
    and "\<And>q. prev (hdr st c) = Some q \<Longrightarrow> \<not> is_free (hdr st q) \<and> q \<noteq> c"
  shows "free st (Some (c + PADDED_HEADER_SIZE)) = Some (st\<lparr>hdr := set_is_free (hdr st) c True\<rparr>)"
proof -
  let ?H = "set_is_free (hdr st) c True"
  have "merge_next ?H c = Some ?H"
    using assms(2) by (subst merge_next_absorb) (auto simp: set_is_free_def split: option.splits)
  moreover have "merge_prev ?H c = ?H"
    using assms(3) by (subst merge_prev_absorb) (auto simp: set_is_free_def split: option.splits)
  ultimately show ?thesis using assms(1) by (simp add: free_def Let_def)
qed

lemma free_into_prev:
  assumes "\<not> is_free (hdr st c)"
    and "\<And>n. next (hdr st c) = Some n \<Longrightarrow> \<not> is_free (hdr st n) \<and> n \<noteq> c"
    and "prev (hdr st c) = Some q" and "is_free (hdr st q)" and "q \<noteq> c"
  shows "free st (Some (c + PADDED_HEADER_SIZE)) =
           Some (st\<lparr>hdr := absorb (set_is_free (hdr st) c True) q c\<rparr>)"
proof -
  let ?H = "set_is_free (hdr st) c True"
  have "merge_next ?H c = Some ?H"
    using assms(2) by (subst merge_next_absorb) (auto simp: set_is_free_def split: option.splits)
  moreover have "merge_prev ?H c = absorb ?H q c"
    using assms(3,4,5) by (subst merge_prev_absorb) (auto simp: set_is_free_def)
  ultimately show ?thesis using assms(1) by (simp add: free_def Let_def)
qed

lemma free_into_next:
  assumes "\<not> is_free (hdr st c)"
    and "next (hdr st c) = Some n" and "is_free (hdr st n)" and "n \<noteq> c"
    and "\<And>m. next (hdr st n) = Some m \<Longrightarrow> \<not> is_free (hdr st m) \<and> m \<noteq> c"
    and "\<And>q. prev (hdr st c) = Some q \<Longrightarrow> \<not> is_free (hdr st q) \<and> q \<noteq> c"
  shows "free st (Some (c + PADDED_HEADER_SIZE)) =
           Some (st\<lparr>hdr := absorb (set_is_free (hdr st) c True) c n\<rparr>)"
proof -
  define H where "H = set_is_free (hdr st) c True"
  define A where "A = absorb H c n"
  have H_other: "\<And>x. x \<noteq> c \<Longrightarrow> H x = hdr st x"
    and H_c: "H c = (hdr st c)\<lparr>is_free := True\<rparr>"
    by (simp_all add: H_def set_is_free_def)
  have nn: "next (H n) \<noteq> Some c" using assms(4,5) by (auto simp: H_other)
  note ab = absorb_at [where h=H and k=c and g=n, OF assms(4) [symmetric] nn]
  have Ac: "next (A c) = next (hdr st n)" "prev (A c) = prev (hdr st c)"
    using assms(4) by (simp_all add: A_def ab(1) H_other H_c)
  have fr: "\<And>x. x \<noteq> c \<Longrightarrow> is_free (A x) = is_free (hdr st x)"
    by (simp add: A_def absorb_is_free H_other)
  have stop: "merge_next A c = Some A"
    using assms(5) by (subst merge_next_absorb) (auto simp: Ac fr split: option.splits)
  have "merge_next H c = Some A"
    using assms(2,3,4) stop
    by (subst merge_next_absorb) (simp add: H_c H_other A_def)
  moreover have "merge_prev A c = A"
    using assms(6) by (subst merge_prev_absorb) (auto simp: Ac fr split: option.splits)
  ultimately show ?thesis using assms(1) by (simp add: free_def Let_def H_def A_def)
qed

lemma no_adjacent_free_cong:
  "(\<And>x. x \<in> set bs \<Longrightarrow> is_free (h' x) = is_free (h x)) \<Longrightarrow>
   no_adjacent_free h' bs = no_adjacent_free h bs"
  by (induction h bs rule: no_adjacent_free.induct) auto

lemma no_adjacent_free_split:
  "no_adjacent_free h (xs @ y # ys) =
     (no_adjacent_free h (xs @ [y]) \<and> no_adjacent_free h (y # ys))"
proof (induction xs)
  case Nil
  then show ?case by simp
next
  case (Cons x xs)
  then show ?case by (cases xs) auto
qed

lemma no_adjacent_free_suffix:
  "no_adjacent_free h (run @ rest) \<Longrightarrow> no_adjacent_free h rest"
proof (induction run)
  case Nil
  then show ?case by simp
next
  case (Cons x run)
  then show ?case by (cases "run @ rest") auto
qed

lemma no_adjacent_free_after:
  "rest = [] \<or> \<not> is_free (h (hd rest)) \<Longrightarrow> no_adjacent_free h rest \<Longrightarrow>
   no_adjacent_free h (c # rest)"
  by (cases rest) auto

lemma merge_next_wf:
  assumes "chain h p (pre @ c # post)" and "back_links h q0 (pre @ c # post)"
    and "layout h lo (pre @ c # post) hi" and "hi < 2 ^ 64"
  shows "\<exists>h' rest. merge_next h c = Some h' \<and>
           chain h' p (pre @ c # rest) \<and> back_links h' q0 (pre @ c # rest) \<and>
           layout h' lo (pre @ c # rest) hi \<and>
           (rest = [] \<or> \<not> is_free (h' (hd rest))) \<and>
           (\<forall>x. is_free (h' x) = is_free (h x)) \<and>
           unat (size_f (h c)) \<le> unat (size_f (h' c)) \<and>
           prev (h' c) = prev (h c) \<and>
           (\<forall>x\<in>set pre. h' x = h x) \<and>
           (\<exists>run. post = run @ rest) \<and>
           (\<forall>x\<in>set rest. size_f (h' x) = size_f (h x))"
  using assms
proof (induction post arbitrary: h)
  case Nil
  then have "next (h c) = None" by (simp add: chain_split)
  then have "merge_next h c = Some h" by (subst merge_next_absorb) simp
  with Nil show ?case by (intro exI [of _ h] exI [of _ "[]"]) simp
next
  case (Cons n ps)
  then have nx: "next (h c) = Some n" by (simp add: chain_split)
  show ?case
  proof (cases "is_free (h n)")
    case False
    with nx have "merge_next h c = Some h" by (subst merge_next_absorb) simp
    with Cons.prems False show ?thesis
      by (intro exI [of _ h] exI [of _ "n # ps"]) simp
  next
    case True
    define h1 where "h1 = absorb h c n"
    from True nx have m: "merge_next h c = merge_next h1 c"
      by (subst merge_next_absorb) (simp add: h1_def)
    note W = absorb_wf [OF Cons.prems(1,2,3,4) h1_def]
    from W have w1: "chain h1 p (pre @ c # ps)" and w2: "back_links h1 q0 (pre @ c # ps)"
      and w3: "layout h1 lo (pre @ c # ps) hi"
      and w4: "h1 c = (h c)\<lparr>size_f := size_f (h c) + (PADDED_HEADER_SIZE + size_f (h n)),
                              next := next (h n)\<rparr>"
      and w5: "unat (size_f (h1 c)) = unat (size_f (h c)) + 32 + unat (size_f (h n))"
      and w6: "\<forall>x\<in>set pre. h1 x = h x"
      and w7: "\<forall>x\<in>set ps. size_f (h1 x) = size_f (h x) \<and> next (h1 x) = next (h x)"
      by blast+
    from Cons.IH [OF w1 w2 w3 Cons.prems(4)]
    obtain h' rest run where r: "merge_next h1 c = Some h'"
      "chain h' p (pre @ c # rest)" "back_links h' q0 (pre @ c # rest)"
      "layout h' lo (pre @ c # rest) hi"
      "rest = [] \<or> \<not> is_free (h' (hd rest))"
      "\<forall>x. is_free (h' x) = is_free (h1 x)"
      "unat (size_f (h1 c)) \<le> unat (size_f (h' c))"
      "prev (h' c) = prev (h1 c)"
      "\<forall>x\<in>set pre. h' x = h1 x"
      "ps = run @ rest"
      "\<forall>x\<in>set rest. size_f (h' x) = size_f (h1 x)"
      by blast
    have "\<forall>x. is_free (h' x) = is_free (h x)"
      using r(6) by (simp add: h1_def absorb_is_free)
    moreover have "unat (size_f (h c)) \<le> unat (size_f (h' c))" using r(7) w5 by simp
    moreover have "prev (h' c) = prev (h c)" using r(8) w4 by simp
    moreover have "\<forall>x\<in>set pre. h' x = h x" using r(9) w6 by simp
    moreover have "\<exists>run. n # ps = run @ rest" using r(10) by (intro exI [of _ "n # run"]) simp
    moreover have "\<forall>x\<in>set rest. size_f (h' x) = size_f (h x)"
      using r(10,11) w7 by auto
    ultimately show ?thesis
      using m r(1-5) by (intro exI [of _ h'] exI [of _ rest]) simp
  qed
qed

lemma free_wf:
  assumes wf: "wf_dir st (pre @ c # post)" and used: "\<not> is_free (hdr st c)"
  shows "\<exists>st' bs' k. free st (Some (c + PADDED_HEADER_SIZE)) = Some st' \<and>
           wf_dir st' bs' \<and> k \<in> set bs' \<and> is_free (hdr st' k) \<and> is_free (hdr st' c) \<and>
           unat (size_f (hdr st c)) \<le> unat (size_f (hdr st' k)) \<and>
           heap_head st' = heap_head st \<and> brk st' = brk st \<and> mem st' = mem st \<and>
           (no_adjacent_free (hdr st) (pre @ c # post) \<longrightarrow> no_adjacent_free (hdr st') bs')"
proof -
  let ?h = "hdr st"
  define H where "H = set_is_free ?h c True"
  have H_at: "\<And>x. next (H x) = next (?h x) \<and> prev (H x) = prev (?h x) \<and>
                   size_f (H x) = size_f (?h x)" "is_free (H c)"
    "\<And>x. x \<noteq> c \<Longrightarrow> is_free (H x) = is_free (?h x)"
    by (simp_all add: H_def set_is_free_def)
  from wf have ch: "chain H (heap_head st) (pre @ c # post)"
    and bl: "back_links H None (pre @ c # post)"
    and lay: "layout H (unat ALGN) (pre @ c # post) (unat (brk st))"
    using H_at(1)
    by (simp_all add: wf_dir_def chain_cong [of _ H ?h] back_links_cong [of _ H ?h]
        layout_cong [of _ H ?h])
  have dist: "distinct (pre @ c # post)" using ch by (rule chain_distinct)
  have hi: "unat (brk st) < 2 ^ 64" using unsigned_less [of "brk st"] by simp
  from merge_next_wf [OF ch bl lay hi]
  obtain h1 rest run where r: "merge_next H c = Some h1"
    "chain h1 (heap_head st) (pre @ c # rest)" "back_links h1 None (pre @ c # rest)"
    "layout h1 (unat ALGN) (pre @ c # rest) (unat (brk st))"
    "\<forall>x. is_free (h1 x) = is_free (H x)"
    "unat (size_f (H c)) \<le> unat (size_f (h1 c))"
    "prev (h1 c) = prev (H c)"
    "rest = [] \<or> \<not> is_free (h1 (hd rest))"
    "post = run @ rest"
    by blast
  have fr: "free st (Some (c + PADDED_HEADER_SIZE)) = Some (st\<lparr>hdr := merge_prev h1 c\<rparr>)"
    using used r(1) by (simp add: free_def Let_def H_def)
  have c1: "is_free (h1 c)" using r(5) H_at(2) by simp
  have sz: "unat (size_f (?h c)) \<le> unat (size_f (h1 c))" using r(6) H_at(1) by simp
  from r(3) have pc: "prev (h1 c) = last_or None pre" by (simp add: back_links_split)
  have same: "\<And>x. x \<noteq> c \<Longrightarrow> is_free (h1 x) = is_free (?h x)"
    using r(5) H_at(3) by simp
  have c_out: "c \<notin> set pre" "c \<notin> set rest" using dist r(9) by auto
  have same_in: "\<And>x. x \<in> set pre \<union> set rest \<Longrightarrow> is_free (h1 x) = is_free (?h x)"
  proof -
    fix x assume "x \<in> set pre \<union> set rest"
    then have "x \<noteq> c" using c_out by auto
    then show "is_free (h1 x) = is_free (?h x)" by (rule same)
  qed
  have tail: "no_adjacent_free h1 (c # rest)" if inv: "no_adjacent_free ?h (pre @ c # post)"
  proof -
    from inv have "no_adjacent_free ?h (c # run @ rest)"
      using no_adjacent_free_split [of ?h pre c post] by (simp add: r(9))
    then have "no_adjacent_free ?h rest"
      using no_adjacent_free_suffix [of ?h "c # run" rest] by simp
    moreover have "no_adjacent_free h1 rest = no_adjacent_free ?h rest"
      by (rule no_adjacent_free_cong) (simp add: same_in)
    ultimately have "no_adjacent_free h1 rest" by simp
    with r(8) show ?thesis by (rule no_adjacent_free_after)
  qed
  have front: "no_adjacent_free h1 pre" if inv: "no_adjacent_free ?h (pre @ c # post)"
  proof -
    from inv have "no_adjacent_free ?h (pre @ [c])"
      using no_adjacent_free_split [of ?h pre c post] by simp
    then have "no_adjacent_free ?h pre"
    proof (cases pre rule: rev_cases)
      case Nil
      then show ?thesis by simp
    next
      case (snoc pre' q)
      assume "no_adjacent_free ?h (pre @ [c])"
      then show ?thesis using no_adjacent_free_split [of ?h pre' q "[c]"] snoc by simp
    qed
    moreover have "no_adjacent_free h1 pre = no_adjacent_free ?h pre"
      by (rule no_adjacent_free_cong) (simp add: same_in)
    ultimately show ?thesis by simp
  qed
  show ?thesis
  proof (cases "\<exists>q. prev (h1 c) = Some q \<and> is_free (h1 q)")
    case False
    then have mp: "merge_prev h1 c = h1"
      by (subst merge_prev_absorb) (auto split: option.splits)
    have "no_adjacent_free h1 (pre @ c # rest)" if inv: "no_adjacent_free ?h (pre @ c # post)"
    proof -
      have "no_adjacent_free h1 (pre @ [c])"
      proof (cases pre rule: rev_cases)
        case Nil
        then show ?thesis by simp
      next
        case (snoc pre' q)
        with pc have "prev (h1 c) = Some q" by (simp add: last_or_def)
        with False have "\<not> is_free (h1 q)" by simp
        then show ?thesis using front [OF inv] snoc no_adjacent_free_split [of h1 pre' q "[c]"]
          by simp
      qed
      with tail [OF inv] show ?thesis using no_adjacent_free_split [of h1 pre c rest] by simp
    qed
    with fr mp r(2,3,4) c1 sz show ?thesis
      by (intro exI [of _ "st\<lparr>hdr := h1\<rparr>"] exI [of _ "pre @ c # rest"] exI [of _ c])
        (simp add: wf_dir_def)
  next
    case True
    then obtain q where q: "prev (h1 c) = Some q" "is_free (h1 q)" by blast
    with pc obtain pre' where pre: "pre = pre' @ [q]"
      by (cases pre rule: rev_cases) (auto simp: last_or_def)
    define h2 where "h2 = absorb h1 q c"
    from q have mp: "merge_prev h1 c = h2"
      by (subst merge_prev_absorb) (simp add: h2_def)
    have ch1: "chain h1 (heap_head st) (pre' @ q # c # rest)"
      and bl1: "back_links h1 None (pre' @ q # c # rest)"
      and lay1: "layout h1 (unat ALGN) (pre' @ q # c # rest) (unat (brk st))"
      using r(2,3,4) by (simp_all add: pre)
    note W = absorb_wf [OF ch1 bl1 lay1 hi h2_def]
    have f2: "\<And>x. is_free (h2 x) = is_free (h1 x)" by (simp add: h2_def absorb_is_free)
    from W have "unat (size_f (h2 q)) = unat (size_f (h1 q)) + 32 + unat (size_f (h1 c))"
      by blast
    with sz have "unat (size_f (?h c)) \<le> unat (size_f (h2 q))" by simp
    moreover have "is_free (h2 q)" "is_free (h2 c)"
      using q(2) c1 by (simp_all add: f2)
    moreover have "wf_dir (st\<lparr>hdr := h2\<rparr>) (pre' @ q # rest)"
      using W by (simp add: wf_dir_def)
    moreover
    have "no_adjacent_free h2 (pre' @ q # rest)" if inv: "no_adjacent_free ?h (pre @ c # post)"
    proof -
      have "no_adjacent_free h1 (pre' @ [q])" using front [OF inv] by (simp add: pre)
      moreover from tail [OF inv] r(8) have "no_adjacent_free h1 (q # rest)"
        by (cases rest) simp_all
      ultimately have "no_adjacent_free h1 (pre' @ q # rest)"
        using no_adjacent_free_split [of h1 pre' q rest] by simp
      moreover have "no_adjacent_free h2 (pre' @ q # rest) = no_adjacent_free h1 (pre' @ q # rest)"
        by (rule no_adjacent_free_cong) (simp add: f2)
      ultimately show ?thesis by simp
    qed
    ultimately show ?thesis using fr mp
      by (intro exI [of _ "st\<lparr>hdr := h2\<rparr>"] exI [of _ "pre' @ q # rest"] exI [of _ q]) simp
  qed
qed

lemma merge_next_total:
  "chain h (next (h c)) post \<Longrightarrow>
   \<exists>h'. merge_next h c = Some h' \<and> (\<forall>x. is_free (h' x) = is_free (h x))"
proof (induction post arbitrary: h)
  case Nil
  then have "merge_next h c = Some h" by (subst merge_next_absorb) simp
  then show ?case by simp
next
  case (Cons n ps)
  then have nx: "next (h c) = Some n" and tl: "chain h (next (h n)) ps" by simp_all
  show ?case
  proof (cases "is_free (h n)")
    case False
    with nx have "merge_next h c = Some h" by (subst merge_next_absorb) simp
    then show ?thesis by simp
  next
    case True
    define h1 where "h1 = absorb h c n"
    from True nx have m: "merge_next h c = merge_next h1 c"
      by (subst merge_next_absorb) (simp add: h1_def)
    have c_post: "c \<notin> set (n # ps)" using Cons.prems by (rule chain_not_in_tail)
    then have cn: "c \<noteq> n" and c_ps: "c \<notin> set ps" by auto
    have n1: "next (h n) \<noteq> Some c"
      using chain_next_in_post [OF tl] c_ps by blast
    note ab = absorb_at [where h=h and k=c and g=n, OF cn n1]
    have "next (h1 c) = next (h n)" by (simp add: h1_def ab(1))
    moreover have "\<And>x. x \<in> set ps \<Longrightarrow> next (h1 x) = next (h x)"
    proof -
      fix x assume "x \<in> set ps"
      then have "x \<noteq> c" using c_ps by blast
      then show "next (h1 x) = next (h x)"
        by (cases "next (h n) = Some x") (simp_all add: h1_def ab(2,3))
    qed
    ultimately have "chain h1 (next (h1 c)) ps"
      using tl by (simp add: chain_cong [of ps h1 h])
    from Cons.IH [OF this] obtain h' where
      "merge_next h1 c = Some h'" "\<forall>x. is_free (h' x) = is_free (h1 x)" by blast
    then show ?thesis using m by (simp add: h1_def absorb_is_free)
  qed
qed

lemma free_total:
  assumes ch: "chain (hdr st) (heap_head st) bs" and c: "c \<in> set bs"
  shows "\<exists>st'. free st (Some (c + PADDED_HEADER_SIZE)) = Some st' \<and> is_free (hdr st' c) \<and>
           mem st' = mem st \<and> heap_head st' = heap_head st \<and> brk st' = brk st \<and>
           errno st' = errno st"
proof (cases "is_free (hdr st c)")
  case True
  then show ?thesis by (simp add: free_def)
next
  case False
  from c obtain pre post where "bs = pre @ c # post" by (auto simp: in_set_conv_decomp)
  with ch have tl: "chain (hdr st) (next (hdr st c)) post" by (simp add: chain_split)
  define H where "H = set_is_free (hdr st) c True"
  have Hn: "\<And>x. next (H x) = next (hdr st x)" by (simp add: H_def set_is_free_def)
  have "chain H (next (H c)) post"
    using tl by (simp add: Hn chain_cong [of post H "hdr st"])
  from merge_next_total [OF this] obtain h' where
    m: "merge_next H c = Some h'" and fr: "\<forall>x. is_free (h' x) = is_free (H x)" by blast
  have Hc: "is_free (H c)" by (simp add: H_def set_is_free_def)
  have "is_free (merge_prev h' c c)"
    using fr Hc by (subst merge_prev_absorb) (simp add: absorb_is_free split: option.splits)
  then show ?thesis using False m by (simp add: free_def Let_def H_def [symmetric])
qed

section \<open>Growth of the arena\<close>

text \<open>An increment below \<open>2 ^ 63\<close> is the same number as a \<^verbatim>\<open>size_t\<close> and as an
  \<^verbatim>\<open>intptr_t\<close>.\<close>

lemma sint_small:
  fixes n :: size_t
  assumes "unat n < 2 ^ 63"
  shows "sint n = int (unat n)"
proof -
  have "uint n < 2 ^ 63"
    using assms by (simp only: uint_nat of_nat_less_numeral_power_cancel_iff)
  moreover have "- (2 ^ 63) \<le> uint n"
  proof -
    have "- (2 ^ 63) \<le> (0 :: int)" by simp
    also have "0 \<le> uint n" by simp
    finally show ?thesis .
  qed
  ultimately have "signed_take_bit 63 (uint n) = uint n"
    by (intro signed_take_bit_int_eq_self)
  then show ?thesis by (simp add: sint_uint)
qed

lemma sbrk_frame:
  assumes "sbrk st n = (r, st')"
  shows "hdr st' = hdr st \<and> heap_head st' = heap_head st \<and> mem st' = mem st \<and>
         (r = None \<longrightarrow> st' = st\<lparr>errno := ENOMEM\<rparr>) \<and> (r \<noteq> None \<longrightarrow> r = Some (brk st))"
  using assms by (auto simp: sbrk_def Let_def split: if_splits)

lemma sbrk_positive:
  fixes n :: size_t
  assumes pos: "0 < unat n" and small: "unat n < 2 ^ 63"
  shows "sbrk st n =
           (if unat (brk st) + unat n \<le> unat (brk_limit st)
            then (Some (brk st), st\<lparr>brk := brk st + n\<rparr>)
            else (None, st\<lparr>errno := ENOMEM\<rparr>))"
proof -
  have s: "sint n = int (unat n)" using small by (rule sint_small)
  have ne: "n \<noteq> 0" using pos by auto
  have p: "0 < sint n" unfolding s using pos by linarith
  have c: "(uint (brk st) + sint n \<le> uint (brk_limit st)) =
           (unat (brk st) + unat n \<le> unat (brk_limit st))"
    unfolding s uint_nat by linarith
  show ?thesis by (simp add: sbrk_def Let_def ne p c)
qed

lemma sbrk_grant_brk:
  fixes n :: size_t
  assumes "unat (brk st) + unat n \<le> unat (brk_limit st)"
  shows "unat (brk st + n) = unat (brk st) + unat n"
proof -
  have "unat (brk_limit st) < 2 ^ 64" using unsigned_less [of "brk_limit st"] by simp
  with assms have "unat (brk st) + unat n < 2 ^ 64" by simp
  then show ?thesis by (rule unat_add_nowrap)
qed

lemma mapped_end_ge: "unat (brk st) \<le> mapped_end st"
proof -
  let ?x = "unat (brk st) + (PAGE_SIZE - 1)"
  have "?x div PAGE_SIZE * PAGE_SIZE + ?x mod PAGE_SIZE = ?x" by (rule div_mult_mod_eq)
  moreover have "?x mod PAGE_SIZE < PAGE_SIZE" by (simp add: PAGE_SIZE_def)
  ultimately have "?x < ?x div PAGE_SIZE * PAGE_SIZE + PAGE_SIZE" by linarith
  then show ?thesis by (simp add: mapped_end_def PAGE_SIZE_def)
qed

lemma mapped_below_brk: "unat a + unat n \<le> unat (brk st) \<Longrightarrow> mapped st a n"
  using mapped_end_ge [of st] by (simp add: mapped_def)

lemma grow_on_chain:
  assumes ch: "chain (hdr st) (heap_head st) (pre @ [l])"
    and nb: "brk st \<notin> set (pre @ [l])"
    and g: "grow st l a = Some (r, st1)"
  shows "mem st1 = mem st \<and> heap_head st1 = heap_head st \<and>
         (case r of
            None \<Rightarrow> st1 = st\<lparr>errno := ENOMEM\<rparr>
          | Some p \<Rightarrow>
              p = brk st + PADDED_HEADER_SIZE \<and>
              hdr st1 (brk st) = \<lparr>size_f = a, is_free = False, next = None, prev = Some l\<rparr> \<and>
              chain (hdr st1) (heap_head st1) (pre @ [l, brk st]) \<and>
              (\<forall>x\<in>set (pre @ [l]).
                 size_f (hdr st1 x) = size_f (hdr st x) \<and>
                 is_free (hdr st1 x) = is_free (hdr st x) \<and>
                 prev (hdr st1 x) = prev (hdr st x)))"
proof -
  let ?n = "PADDED_HEADER_SIZE + a + ALGN"
  obtain r0 st' where s: "sbrk st ?n = (r0, st')" by (cases "sbrk st ?n")
  note fr = sbrk_frame [OF s]
  show ?thesis
  proof (cases r0)
    case None
    with fr have "st' = st\<lparr>errno := ENOMEM\<rparr>" by simp
    with g s None show ?thesis by (auto simp: grow_def)
  next
    case (Some b)
    with fr have b: "b = brk st" by simp
    define h5 where "h5 = (hdr st)(brk st := \<lparr>size_f = a, is_free = False,
                                              next = None, prev = Some l\<rparr>,
                                   l := (hdr st l)\<lparr>next := Some (brk st)\<rparr>)"
    have ne: "brk st \<noteq> l" using nb by auto
    have h5: "set_next (set_prev (set_next (set_is_free (set_size (hdr st) (brk st) a)
                (brk st) False) (brk st) None) (brk st) (Some l)) l (Some (brk st)) = h5"
      using ne by (simp add: field_writes h5_def fun_eq_iff)
    have g': "grow st l a =
                (if mapped st' (brk st) HEADER_SIZE
                 then Some (Some (brk st + PADDED_HEADER_SIZE), st'\<lparr>hdr := h5\<rparr>) else None)"
      using fr by (simp add: grow_def s Some b Let_def h5)
    with g have r: "r = Some (brk st + PADDED_HEADER_SIZE)" and st1: "st1 = st'\<lparr>hdr := h5\<rparr>"
      by (auto split: if_splits)
    have dist: "distinct (pre @ [l])" using ch by (rule chain_distinct)
    have pre_same: "\<And>x. x \<in> set pre \<Longrightarrow> h5 x = hdr st x"
      using nb dist by (auto simp: h5_def)
    from ch have "seg (hdr st) (heap_head st) pre (Some l)" by (simp add: chain_split)
    then have "seg h5 (heap_head st) pre (Some l)"
      using pre_same by (simp add: seg_cong [of pre h5 "hdr st"])
    moreover have "next (h5 l) = Some (brk st)" "next (h5 (brk st)) = None"
      using ne by (simp_all add: h5_def)
    ultimately have "chain h5 (heap_head st) (pre @ [l, brk st])"
      by (simp add: chain_split)
    moreover have "\<forall>x\<in>set (pre @ [l]). size_f (h5 x) = size_f (hdr st x) \<and>
                     is_free (h5 x) = is_free (hdr st x) \<and> prev (h5 x) = prev (hdr st x)"
      using nb by (auto simp: h5_def)
    moreover have "h5 (brk st) = \<lparr>size_f = a, is_free = False, next = None, prev = Some l\<rparr>"
      using ne by (simp add: h5_def)
    ultimately show ?thesis using fr by (simp add: r st1)
  qed
qed

lemma and_not_15:
  fixes y :: size_t
  shows "y AND NOT 15 = y div 16 * 16"
proof -
  have m: "(15 :: size_t) = mask 4" by (simp add: mask_eq_exp_minus_1)
  have "y AND NOT (mask 4) = push_bit 4 (drop_bit 4 y)"
    by (rule bit_word_eqI) (auto simp: bit_simps)
  then show ?thesis unfolding m by (simp add: push_bit_eq_mult drop_bit_eq_div)
qed

lemma unat_and_not_15:
  fixes y :: size_t
  shows "unat (y AND NOT 15) = unat y div 16 * 16"
proof -
  have d: "unat (y div 16) = unat y div 16" by (simp add: unat_div)
  have "unat y div 16 * 16 \<le> unat y" by simp
  also have "unat y < 2 ^ 64" using unsigned_less [of y] by simp
  finally have "unat (y div 16) * unat (16 :: size_t) < 2 ^ LENGTH(64)" by (simp add: d)
  then have "unat (y div 16 * 16) = unat (y div 16) * unat (16 :: size_t)"
    by (simp only: unat_mult_lem)
  then show ?thesis unfolding and_not_15 by (simp add: d)
qed

lemma align_up_bounds:
  fixes req :: size_t
  assumes "unat req + 15 < 2 ^ 64"
  shows "req \<le> align_up req" and "unat (align_up req) \<le> unat req + 15"
proof -
  have e: "align_up req = (req + 15) AND NOT 15" by (simp add: align_up_def ALGN_def)
  have y: "unat (req + 15) = unat req + unat (15 :: size_t)"
    by (rule unat_add_nowrap) (use assms in simp)
  let ?x = "unat req + 15"
  have u: "unat (align_up req) = ?x div 16 * 16"
    unfolding e unat_and_not_15 using y by simp
  have "?x div 16 * 16 + ?x mod 16 = ?x" by (rule div_mult_mod_eq)
  moreover have "?x mod 16 < 16" by simp
  ultimately have "unat req \<le> ?x div 16 * 16" "?x div 16 * 16 \<le> ?x" by linarith+
  then show "req \<le> align_up req" and "unat (align_up req) \<le> unat req + 15"
    by (simp_all add: u word_le_nat_alt)
qed

lemma increment_nat:
  fixes a :: size_t
  assumes "unat a + 48 < 2 ^ 63"
  shows "unat (PADDED_HEADER_SIZE + a + ALGN) = unat a + 48"
    and "unat (PADDED_HEADER_SIZE + a) = unat a + 32"
proof -
  have 1: "unat (32 + a) = unat (32 :: size_t) + unat a"
    by (rule unat_add_nowrap) (use assms in simp)
  then show "unat (PADDED_HEADER_SIZE + a) = unat a + 32"
    by (simp add: PADDED_HEADER_SIZE_eq)
  have "unat (32 + a + 16) = unat (32 + a) + unat (16 :: size_t)"
    by (rule unat_add_nowrap) (use assms 1 in simp)
  with 1 show "unat (PADDED_HEADER_SIZE + a + ALGN) = unat a + 48"
    by (simp add: PADDED_HEADER_SIZE_eq ALGN_def)
qed

lemma brk_not_a_block:
  assumes "layout h lo bs (unat b)"
  shows "b \<notin> set bs"
proof
  assume "b \<in> set bs"
  with layout_bounds [OF assms, of b] show False
    by (simp add: PADDED_HEADER_SIZE_eq)
qed

lemma grow_wf:
  assumes wf: "wf_dir st (pre @ [l])" and ok: "unat a + 48 < 2 ^ 63"
  shows "grow st l a = Some (None, st\<lparr>errno := ENOMEM\<rparr>) \<or>
         (\<exists>st1. grow st l a = Some (Some (brk st + PADDED_HEADER_SIZE), st1) \<and>
            mem st1 = mem st \<and> wf_dir st1 (pre @ [l, brk st]) \<and>
            size_f (hdr st1 (brk st)) = a \<and> \<not> is_free (hdr st1 (brk st)) \<and>
            unat (brk st1) = unat (brk st) + unat a + 48 \<and>
            (\<forall>x\<in>set (pre @ [l]).
               size_f (hdr st1 x) = size_f (hdr st x) \<and>
               is_free (hdr st1 x) = is_free (hdr st x)))"
proof -
  let ?n = "PADDED_HEADER_SIZE + a + ALGN"
  from wf have ch: "chain (hdr st) (heap_head st) (pre @ [l])"
    and bl: "back_links (hdr st) None (pre @ [l])"
    and lay: "layout (hdr st) (unat ALGN) (pre @ [l]) (unat (brk st))"
    by (simp_all add: wf_dir_def)
  have nb: "brk st \<notin> set (pre @ [l])" using lay by (rule brk_not_a_block)
  have n: "unat ?n = unat a + 48" using ok by (rule increment_nat)
  have sb: "sbrk st ?n =
           (if unat (brk st) + unat ?n \<le> unat (brk_limit st)
            then (Some (brk st), st\<lparr>brk := brk st + ?n\<rparr>)
            else (None, st\<lparr>errno := ENOMEM\<rparr>))"
    by (rule sbrk_positive) (use n ok in simp_all)
  show ?thesis
  proof (cases "unat (brk st) + unat ?n \<le> unat (brk_limit st)")
    case False
    with sb show ?thesis by (simp add: grow_def)
  next
    case True
    let ?st' = "st\<lparr>brk := brk st + ?n\<rparr>"
    from True sb have s: "sbrk st ?n = (Some (brk st), ?st')" by simp
    have up: "unat (brk st + ?n) = unat (brk st) + unat a + 48"
      using sbrk_grant_brk [OF True] n by simp
    have "mapped ?st' (brk st) HEADER_SIZE"
      by (rule mapped_below_brk) (simp add: up HEADER_SIZE_eq)
    then obtain st1 where g: "grow st l a = Some (Some (brk st + PADDED_HEADER_SIZE), st1)"
      and b1: "brk st1 = brk st + ?n"
      by (simp add: grow_def s Let_def)
    have hi: "unat (brk st1) = unat (brk st) + unat a + 48" using b1 up by simp
    have p32: "unat PADDED_HEADER_SIZE = 32" by (simp add: PADDED_HEADER_SIZE_eq)
    from grow_on_chain [OF ch nb g]
    have m: "mem st1 = mem st" and hh: "heap_head st1 = heap_head st"
      and new: "hdr st1 (brk st) = \<lparr>size_f = a, is_free = False, next = None, prev = Some l\<rparr>"
      and c1: "chain (hdr st1) (heap_head st1) (pre @ [l, brk st])"
      and same: "\<forall>x\<in>set (pre @ [l]).
                 size_f (hdr st1 x) = size_f (hdr st x) \<and>
                 is_free (hdr st1 x) = is_free (hdr st x) \<and>
                 prev (hdr st1 x) = prev (hdr st x)"
      by auto
    have "back_links (hdr st1) None (pre @ [l]) = back_links (hdr st) None (pre @ [l])"
      by (rule back_links_cong) (use same in auto)
    with bl have "back_links (hdr st1) None ((pre @ [l]) @ [brk st])"
      using back_links_split [of "hdr st1" None "pre @ [l]" "brk st" "[]"] new
      by (simp add: last_or_def)
    then have b2: "back_links (hdr st1) None (pre @ [l, brk st])" by simp
    have "layout (hdr st1) (unat ALGN) (pre @ [l]) (unat (brk st)) =
          layout (hdr st) (unat ALGN) (pre @ [l]) (unat (brk st))"
      by (rule layout_cong) (use same in auto)
    with lay have "layout (hdr st1) (unat ALGN) ((pre @ [l]) @ [brk st]) (unat (brk st1))"
      using layout_split [of "hdr st1" "unat ALGN" "pre @ [l]" "brk st" "[]" "unat (brk st1)"]
      by (simp add: new hi p32)
    then have l2: "layout (hdr st1) (unat ALGN) (pre @ [l, brk st]) (unat (brk st1))" by simp
    have "wf_dir st1 (pre @ [l, brk st])" using c1 b2 l2 by (simp add: wf_dir_def)
    then show ?thesis using g m new same hi by simp
  qed
qed

section \<open>malloc on a well-formed directory\<close>

text \<open>When the aligned request plus the padded header and one alignment unit stays below
  \<open>2 ^ 63\<close>, no size computation of \<^verbatim>\<open>malloc\<close> wraps around and the increment passed to
  \<^verbatim>\<open>sbrk\<close> is positive. On a well-formed directory (an empty one included) \<^verbatim>\<open>malloc\<close> then
  returns: either \<^verbatim>\<open>NULL\<close>, with nothing changed but \<^verbatim>\<open>errno\<close>, or the payload address of
  an in-use block of a well-formed directory, at least as large as the aligned request;
  every other block keeps its size and free flag and no payload byte changes.\<close>

lemma first_request_size_nat:
  fixes a :: size_t
  assumes ok: "unat a + 48 < 2 ^ 63"
  shows "first_request_size a =
           (if PADDED_HEADER_SIZE + a \<le> 64 * 1024 then 64 * 1024
            else PADDED_HEADER_SIZE + a + ALGN)"
    and "unat (first_request_size a) = (if unat a + 32 \<le> 65536 then 65536 else unat a + 48)"
    and "unat (first_request_size a - PADDED_HEADER_SIZE) = unat (first_request_size a) - 32"
    and "a \<le> first_request_size a - PADDED_HEADER_SIZE"
proof -
  let ?R = "first_request_size a"
  show 1: "?R = (if PADDED_HEADER_SIZE + a \<le> 64 * 1024 then 64 * 1024
            else PADDED_HEADER_SIZE + a + ALGN)"
    by (cases "PADDED_HEADER_SIZE + a \<le> 64 * 1024")
      (auto simp: first_request_size_def Let_def not_le)
  have c: "(PADDED_HEADER_SIZE + a \<le> 64 * 1024) = (unat a + 32 \<le> 65536)"
    using increment_nat(2) [OF ok] by (simp add: word_le_nat_alt)
  show 2: "unat ?R = (if unat a + 32 \<le> 65536 then 65536 else unat a + 48)"
    unfolding 1 c using increment_nat(1) [OF ok] by simp
  have "(32 :: size_t) \<le> ?R" using 2 by (simp add: word_le_nat_alt split: if_splits)
  then have "unat (?R - 32) = unat ?R - unat (32 :: size_t)" by (rule unat_sub)
  then show 3: "unat (?R - PADDED_HEADER_SIZE) = unat ?R - 32"
    by (simp add: PADDED_HEADER_SIZE_eq)
  show "a \<le> ?R - PADDED_HEADER_SIZE"
    unfolding word_le_nat_alt 3 2 by (simp split: if_splits)
qed

lemma heap_init_in_range:
  fixes a :: size_t
  assumes ok: "unat a + 48 < 2 ^ 63"
  shows "(heap_init st a = Some None \<and>
          sbrk st (first_request_size a) = (None, st\<lparr>errno := ENOMEM\<rparr>)) \<or>
         (\<exists>st1. heap_init st a = Some (Some st1) \<and>
            sbrk st (first_request_size a) =
              (Some (brk st), st\<lparr>brk := brk st + first_request_size a\<rparr>) \<and>
            st1 = st\<lparr>brk := brk st + first_request_size a,
                     hdr := (hdr st)(brk st :=
                       \<lparr>size_f = first_request_size a - PADDED_HEADER_SIZE, is_free = True,
                        next = None, prev = None\<rparr>),
                     heap_head := Some (brk st)\<rparr> \<and>
            unat (brk st + first_request_size a) = unat (brk st) + unat (first_request_size a))"
proof -
  let ?R = "first_request_size a"
  note R = first_request_size_nat [OF ok]
  have pos: "0 < unat ?R" and small: "unat ?R < 2 ^ 63" and big: "32 \<le> unat ?R"
    using R(2) ok by (simp_all split: if_splits)
  note sb = sbrk_positive [OF pos small, of st]
  show ?thesis
  proof (cases "unat (brk st) + unat ?R \<le> unat (brk_limit st)")
    case False
    with sb show ?thesis by (simp add: heap_init_def Let_def)
  next
    case True
    let ?st' = "st\<lparr>brk := brk st + ?R\<rparr>"
    from True sb have s: "sbrk st ?R = (Some (brk st), ?st')" by simp
    have up: "unat (brk st + ?R) = unat (brk st) + unat ?R"
      using True by (rule sbrk_grant_brk)
    have "mapped ?st' (brk st) HEADER_SIZE"
      by (rule mapped_below_brk) (use big in \<open>simp add: up HEADER_SIZE_eq\<close>)
    then have "heap_init st a = Some (Some (?st'\<lparr>hdr := (hdr ?st')(brk st :=
                          \<lparr>size_f = ?R - PADDED_HEADER_SIZE, is_free = True,
                           next = None, prev = None\<rparr>),
                        heap_head := Some (brk st)\<rparr>))"
      by (simp add: heap_init_def s Let_def)
    then show ?thesis using s up by simp
  qed
qed

lemma heap_init_wf:
  fixes a :: size_t
  assumes lo: "unat ALGN \<le> unat (brk st)" and ok: "unat a + 48 < 2 ^ 63"
  shows "(heap_init st a = Some None \<and>
          sbrk st (first_request_size a) = (None, st\<lparr>errno := ENOMEM\<rparr>)) \<or>
         (\<exists>st1. heap_init st a = Some (Some st1) \<and>
            sbrk st (first_request_size a) =
              (Some (brk st), st\<lparr>brk := brk st + first_request_size a\<rparr>) \<and>
            unat (brk st1) = unat (brk st) + unat (first_request_size a) \<and>
            heap_head st1 = Some (brk st) \<and> mem st1 = mem st \<and>
            hdr st1 (brk st) = \<lparr>size_f = first_request_size a - PADDED_HEADER_SIZE,
                                  is_free = True, next = None, prev = None\<rparr> \<and>
            wf_dir st1 [brk st])"
proof -
  let ?R = "first_request_size a"
  note R = first_request_size_nat [OF ok]
  have big: "32 \<le> unat ?R" using R(2) by (simp split: if_splits)
  have p32: "unat PADDED_HEADER_SIZE = 32" by (simp add: PADDED_HEADER_SIZE_eq)
  from heap_init_in_range [OF ok, of st] show ?thesis
  proof
    assume "heap_init st a = Some None \<and> sbrk st ?R = (None, st\<lparr>errno := ENOMEM\<rparr>)"
    then show ?thesis by simp
  next
    assume "\<exists>st1. heap_init st a = Some (Some st1) \<and>
            sbrk st ?R = (Some (brk st), st\<lparr>brk := brk st + ?R\<rparr>) \<and>
            st1 = st\<lparr>brk := brk st + ?R,
                     hdr := (hdr st)(brk st :=
                       \<lparr>size_f = ?R - PADDED_HEADER_SIZE, is_free = True,
                        next = None, prev = None\<rparr>),
                     heap_head := Some (brk st)\<rparr> \<and>
            unat (brk st + ?R) = unat (brk st) + unat ?R"
    then obtain st1 where h: "heap_init st a = Some (Some st1)"
      and s: "sbrk st ?R = (Some (brk st), st\<lparr>brk := brk st + ?R\<rparr>)"
      and st1: "st1 = st\<lparr>brk := brk st + ?R,
                     hdr := (hdr st)(brk st :=
                       \<lparr>size_f = ?R - PADDED_HEADER_SIZE, is_free = True,
                        next = None, prev = None\<rparr>),
                     heap_head := Some (brk st)\<rparr>"
      and up: "unat (brk st + ?R) = unat (brk st) + unat ?R" by blast
    have "wf_dir st1 [brk st]"
      using lo big by (simp add: wf_dir_def st1 up R(3) p32)
    then show ?thesis using h s up by (simp add: st1)
  qed
qed

lemma malloc_in_range_dir:
  assumes wf: "wf_dir st bs" and ne: "bs \<noteq> []" and req: "req \<noteq> 0"
    and ok: "unat (align_up req) + 48 < 2 ^ 63"
  shows "\<exists>r st1. malloc st req = Some (r, st1) \<and> mem st1 = mem st \<and>
           (case r of
              None \<Rightarrow> st1 = st\<lparr>errno := ENOMEM\<rparr>
            | Some p \<Rightarrow>
                (\<exists>bs1 c. wf_dir st1 bs1 \<and> set bs \<subseteq> set bs1 \<and> c \<in> set bs1 \<and>
                   p = c + PADDED_HEADER_SIZE \<and> \<not> is_free (hdr st1 c) \<and>
                   align_up req \<le> size_f (hdr st1 c) \<and>
                   (c \<in> set bs \<longrightarrow> is_free (hdr st c)) \<and>
                   (\<forall>x\<in>set bs. x \<noteq> c \<longrightarrow>
                      size_f (hdr st1 x) = size_f (hdr st x) \<and>
                      is_free (hdr st1 x) = is_free (hdr st x))))"
proof -
  let ?a = "align_up req"
  let ?P = "\<lambda>b. is_free (hdr st b) \<and> ?a \<le> size_f (hdr st b)"
  from wf have ch: "chain (hdr st) (heap_head st) bs"
    and lay: "layout (hdr st) (unat ALGN) bs (unat (brk st))"
    by (simp_all add: wf_dir_def)
  show ?thesis
  proof (cases "\<exists>x\<in>set bs. ?P x")
    case True
    then obtain pre c post where d: "bs = pre @ c # post" "?P c" "\<forall>b\<in>set pre. \<not> ?P b"
      using split_list_first_prop [of bs ?P] by blast
    let ?nb = "c + PADDED_HEADER_SIZE + ?a"
    from malloc_first_fit_effect [OF wf [unfolded d(1)] req d(3)] d(2)
    obtain st1 where m: "malloc st req = Some (Some (c + PADDED_HEADER_SIZE), st1)"
      and uc: "\<not> is_free (hdr st1 c)"
      and same: "\<forall>x\<in>set pre \<union> set post.
              size_f (hdr st1 x) = size_f (hdr st x) \<and> is_free (hdr st1 x) = is_free (hdr st x)"
      and mem: "mem st1 = mem st"
      and w: "if ?a + PADDED_HEADER_SIZE + ALGN \<le> size_f (hdr st c)
            then wf_dir st1 (pre @ c # ?nb # post) \<and> size_f (hdr st1 c) = ?a \<and>
                 next (hdr st1 c) = Some ?nb \<and>
                 hdr st1 ?nb =
                   \<lparr>size_f = size_f (hdr st c) - ?a - PADDED_HEADER_SIZE,
                    is_free = True, next = next (hdr st c), prev = Some c\<rparr>
            else wf_dir st1 (pre @ c # post) \<and>
                 hdr st1 = (hdr st)(c := (hdr st c)\<lparr>is_free := False\<rparr>)"
      by blast
    have dist: "distinct bs" using ch by (rule chain_distinct)
    have others: "\<forall>x\<in>set bs. x \<noteq> c \<longrightarrow>
                      size_f (hdr st1 x) = size_f (hdr st x) \<and>
                      is_free (hdr st1 x) = is_free (hdr st x)"
      using same d(1) by auto
    have "\<exists>bs1. wf_dir st1 bs1 \<and> set bs \<subseteq> set bs1 \<and> c \<in> set bs1 \<and>
            ?a \<le> size_f (hdr st1 c)"
    proof (cases "?a + PADDED_HEADER_SIZE + ALGN \<le> size_f (hdr st c)")
      case True
      with w have "wf_dir st1 (pre @ c # ?nb # post)" "size_f (hdr st1 c) = ?a" by simp_all
      then show ?thesis using d(1)
        by (intro exI [of _ "pre @ c # ?nb # post"]) auto
    next
      case False
      with w have "wf_dir st1 bs" "size_f (hdr st1 c) = size_f (hdr st c)"
        by (simp_all add: d(1))
      then show ?thesis using d(1,2) by (intro exI [of _ bs]) auto
    qed
    then show ?thesis using m mem uc others d(2) by auto
  next
    case False
    then have nf: "find ?P bs = None" by (simp add: find_None_iff)
    from ne obtain pre l where bs: "bs = pre @ [l]" by (cases bs rule: rev_cases) auto
    from ne obtain a as where cons: "bs = a # as" by (cases bs) auto
    with ch have hd: "heap_head st = Some a" and tl: "chain (hdr st) (next (hdr st a)) as"
      by simp_all
    have "last (a # as) = l" using cons bs by (metis last_snoc)
    then have lb: "last_block (hdr st) a = Some l"
      using last_block_chain [OF tl] by simp
    have ff: "first_fit (hdr st) (Some a) ?a = Some None"
      using first_fit_chain [OF ch, of ?a] nf hd by simp
    have m: "malloc st req = grow st l ?a"
      using req by (simp add: malloc_def Let_def hd ff lb)
    have nb: "brk st \<notin> set bs" using lay by (rule brk_not_a_block)
    from grow_wf [OF wf [unfolded bs] ok] show ?thesis
    proof
      assume "grow st l ?a = Some (None, st\<lparr>errno := ENOMEM\<rparr>)"
      then show ?thesis using m by simp
    next
      assume "\<exists>st1. grow st l ?a = Some (Some (brk st + PADDED_HEADER_SIZE), st1) \<and>
            mem st1 = mem st \<and> wf_dir st1 (pre @ [l, brk st]) \<and>
            size_f (hdr st1 (brk st)) = ?a \<and> \<not> is_free (hdr st1 (brk st)) \<and>
            unat (brk st1) = unat (brk st) + unat ?a + 48 \<and>
            (\<forall>x\<in>set (pre @ [l]).
               size_f (hdr st1 x) = size_f (hdr st x) \<and>
               is_free (hdr st1 x) = is_free (hdr st x))"
      then obtain st1 where g: "grow st l ?a = Some (Some (brk st + PADDED_HEADER_SIZE), st1)"
        "mem st1 = mem st" "wf_dir st1 (pre @ [l, brk st])"
        "size_f (hdr st1 (brk st)) = ?a" "\<not> is_free (hdr st1 (brk st))"
        "\<forall>x\<in>set (pre @ [l]). size_f (hdr st1 x) = size_f (hdr st x) \<and>
                                   is_free (hdr st1 x) = is_free (hdr st x)"
        by blast
      have "wf_dir st1 (pre @ [l, brk st]) \<and> set bs \<subseteq> set (pre @ [l, brk st]) \<and>
            brk st \<in> set (pre @ [l, brk st])"
        using g(3) by (auto simp: bs)
      then have "\<exists>bs1 c. wf_dir st1 bs1 \<and> set bs \<subseteq> set bs1 \<and> c \<in> set bs1 \<and>
                   brk st + PADDED_HEADER_SIZE = c + PADDED_HEADER_SIZE \<and>
                   \<not> is_free (hdr st1 c) \<and> ?a \<le> size_f (hdr st1 c) \<and>
                   (c \<in> set bs \<longrightarrow> is_free (hdr st c)) \<and>
                   (\<forall>x\<in>set bs. x \<noteq> c \<longrightarrow>
                      size_f (hdr st1 x) = size_f (hdr st x) \<and>
                      is_free (hdr st1 x) = is_free (hdr st x))"
        using g(4,5,6) nb
        by (intro exI [of _ "pre @ [l, brk st]"] exI [of _ "brk st"]) (simp add: bs)
      then show ?thesis using m g(1,2) by simp
    qed
  qed
qed

lemma malloc_in_range:
  assumes wf: "wf_dir st bs" and req: "req \<noteq> 0"
    and ok: "unat (align_up req) + 48 < 2 ^ 63"
  shows "\<exists>r st1. malloc st req = Some (r, st1) \<and> mem st1 = mem st \<and>
           (case r of
              None \<Rightarrow> st1 = st\<lparr>errno := ENOMEM\<rparr>
            | Some p \<Rightarrow>
                (\<exists>bs1 c. wf_dir st1 bs1 \<and> set bs \<subseteq> set bs1 \<and> c \<in> set bs1 \<and>
                   p = c + PADDED_HEADER_SIZE \<and> \<not> is_free (hdr st1 c) \<and>
                   align_up req \<le> size_f (hdr st1 c) \<and>
                   (c \<in> set bs \<longrightarrow> is_free (hdr st c)) \<and>
                   (\<forall>x\<in>set bs. x \<noteq> c \<longrightarrow>
                      size_f (hdr st1 x) = size_f (hdr st x) \<and>
                      is_free (hdr st1 x) = is_free (hdr st x))))"
proof (cases "bs = []")
  case False
  with wf show ?thesis using req ok by (rule malloc_in_range_dir)
next
  case True
  with wf have hd: "heap_head st = None" and lo: "unat ALGN \<le> unat (brk st)"
    by (simp_all add: wf_dir_def)
  let ?a = "align_up req"
  from heap_init_wf [OF lo ok] show ?thesis
  proof
    assume "heap_init st ?a = Some None \<and>
          sbrk st (first_request_size ?a) = (None, st\<lparr>errno := ENOMEM\<rparr>)"
    then show ?thesis using req hd by (simp add: malloc_def Let_def)
  next
    assume "\<exists>st1. heap_init st ?a = Some (Some st1) \<and>
            sbrk st (first_request_size ?a) =
              (Some (brk st), st\<lparr>brk := brk st + first_request_size ?a\<rparr>) \<and>
            unat (brk st1) = unat (brk st) + unat (first_request_size ?a) \<and>
            heap_head st1 = Some (brk st) \<and> mem st1 = mem st \<and>
            hdr st1 (brk st) = \<lparr>size_f = first_request_size ?a - PADDED_HEADER_SIZE,
                                  is_free = True, next = None, prev = None\<rparr> \<and>
            wf_dir st1 [brk st]"
    then obtain st1 where h: "heap_init st ?a = Some (Some st1)"
      and m1: "mem st1 = mem st"
      and b: "hdr st1 (brk st) = \<lparr>size_f = first_request_size ?a - PADDED_HEADER_SIZE,
                                  is_free = True, next = None, prev = None\<rparr>"
      and w1: "wf_dir st1 [brk st]" by blast
    have init: "(if heap_head st = None then heap_init st ?a else Some (Some st)) =
                Some (Some st1)" using hd h by simp
    have e: "malloc st req = malloc st1 req" using req init by (rule malloc_after_init)
    have w1': "wf_dir st1 ([] @ brk st # [])" using w1 by simp
    have fr: "is_free (hdr st1 (brk st))" and fit: "?a \<le> size_f (hdr st1 (brk st))"
      using first_request_size_nat(4) [OF ok] by (simp_all add: b)
    have pre: "\<forall>b\<in>set []. \<not> (is_free (hdr st1 b) \<and> ?a \<le> size_f (hdr st1 b))" by simp
    from malloc_first_fit_effect [OF w1' req pre fr fit]
    obtain st2 where m: "malloc st1 req = Some (Some (brk st + PADDED_HEADER_SIZE), st2)"
      and uc: "\<not> is_free (hdr st2 (brk st))" and m2: "mem st2 = mem st1"
      and w: "if ?a + PADDED_HEADER_SIZE + ALGN \<le> size_f (hdr st1 (brk st))
            then wf_dir st2 ([] @ brk st # (brk st + PADDED_HEADER_SIZE + ?a) # []) \<and>
                 size_f (hdr st2 (brk st)) = ?a \<and>
                 next (hdr st2 (brk st)) = Some (brk st + PADDED_HEADER_SIZE + ?a) \<and>
                 hdr st2 (brk st + PADDED_HEADER_SIZE + ?a) =
                   \<lparr>size_f = size_f (hdr st1 (brk st)) - ?a - PADDED_HEADER_SIZE,
                    is_free = True, next = next (hdr st1 (brk st)), prev = Some (brk st)\<rparr>
            else wf_dir st2 ([] @ brk st # []) \<and>
                 hdr st2 = (hdr st1)(brk st := (hdr st1 (brk st))\<lparr>is_free := False\<rparr>)"
      by blast
    have "\<exists>bs1. wf_dir st2 bs1 \<and> brk st \<in> set bs1 \<and> ?a \<le> size_f (hdr st2 (brk st))"
    proof (cases "?a + PADDED_HEADER_SIZE + ALGN \<le> size_f (hdr st1 (brk st))")
      case True
      with w have "wf_dir st2 [brk st, brk st + PADDED_HEADER_SIZE + ?a]"
        "size_f (hdr st2 (brk st)) = ?a" by simp_all
      then show ?thesis by (intro exI [of _ "[brk st, brk st + PADDED_HEADER_SIZE + ?a]"]) simp
    next
      case False
      with w have "wf_dir st2 [brk st]" "size_f (hdr st2 (brk st)) = size_f (hdr st1 (brk st))"
        by simp_all
      then show ?thesis using fit by (intro exI [of _ "[brk st]"]) simp
    qed
    then show ?thesis using e m uc m1 m2 True by auto
  qed
qed

text \<open>The payload of a block of a well-formed directory lies below the break, in mapped
  memory.\<close>

lemma payload_mapped:
  assumes wf: "wf_dir st bs" and x: "x \<in> set bs" and n: "n \<le> size_f (hdr st x)"
  shows "mapped st (x + PADDED_HEADER_SIZE) n"
    and "unat (x + PADDED_HEADER_SIZE) = unat x + 32"
proof -
  from wf have lay: "layout (hdr st) (unat ALGN) bs (unat (brk st))"
    by (simp add: wf_dir_def)
  from layout_bounds [OF lay x]
  have b: "unat x + 32 + unat (size_f (hdr st x)) \<le> unat (brk st)"
    by (simp add: PADDED_HEADER_SIZE_eq)
  have "unat (brk st) < 2 ^ 64" using unsigned_less [of "brk st"] by simp
  with b have "unat x + unat (32 :: size_t) < 2 ^ 64" by simp
  then have "unat (x + 32) = unat x + unat (32 :: size_t)" by (rule unat_add_nowrap)
  then show p: "unat (x + PADDED_HEADER_SIZE) = unat x + 32"
    by (simp add: PADDED_HEADER_SIZE_eq)
  have "unat n \<le> unat (size_f (hdr st x))" using n by (simp add: word_le_nat_alt)
  with b p have "unat (x + PADDED_HEADER_SIZE) + unat n \<le> unat (brk st)" by simp
  then show "mapped st (x + PADDED_HEADER_SIZE) n" by (rule mapped_below_brk)
qed

section \<open>The bytes written by memset and memcpy\<close>

text \<open>The block \<^verbatim>\<open>malloc\<close> returns is at least as large as the aligned request. On a
  well-formed directory the bytes \<^verbatim>\<open>memset\<close> writes for \<^verbatim>\<open>calloc\<close>, whenever it returns,
  therefore lie inside the payload of that block, whatever the size asked for; and the
  bytes \<^verbatim>\<open>memcpy\<close> moves for \<^verbatim>\<open>realloc\<close> lie inside the payloads of the old and of the new
  block. No header is written through the view \<open>mem\<close>.\<close>

lemma first_fit_found:
  assumes "chain h p bs" and "first_fit h p a = Some (Some c)"
  shows "is_free (h c) \<and> a \<le> size_f (h c)"
  using assms by (auto simp: first_fit_chain find_Some_iff)

lemma take_block_size: "a \<le> size_f (h c) \<Longrightarrow> a \<le> size_f (take_block h c a c)"
  by (simp add: take_block_def split_block_def field_writes Let_def)

lemma grow_block_size:
  assumes "grow st l a = Some (Some p, st1)"
  shows "p = brk st + PADDED_HEADER_SIZE \<and> size_f (hdr st1 (brk st)) = a"
proof -
  obtain r0 st' where s: "sbrk st (PADDED_HEADER_SIZE + a + ALGN) = (r0, st')"
    by (cases "sbrk st (PADDED_HEADER_SIZE + a + ALGN)")
  from sbrk_frame [OF s] assms s show ?thesis
    by (cases r0) (auto simp: grow_def field_writes Let_def split: if_splits)
qed

lemma malloc_block_size:
  assumes wf: "wf_dir st bs" and m: "malloc st t = Some (Some p, st1)"
  shows "align_up t \<le> size_f (hdr st1 (p - PADDED_HEADER_SIZE))"
proof -
  let ?a = "align_up t"
  have t0: "t \<noteq> 0" using m by (auto simp: malloc_def)
  obtain st0 where i: "(if heap_head st = None then heap_init st ?a else Some (Some st)) =
                       Some (Some st0)"
    using m t0 by (auto simp: malloc_def Let_def split: option.splits)
  have "\<exists>bs0. chain (hdr st0) (heap_head st0) bs0"
  proof (cases "heap_head st = None")
    case True
    with i have "heap_init st ?a = Some (Some st0)" by simp
    then obtain block where "heap_head st0 = Some block" "next (hdr st0 block) = None"
      by (auto simp: heap_init_def Let_def split: prod.splits option.splits if_splits)
    then have "chain (hdr st0) (heap_head st0) [block]" by simp
    then show ?thesis ..
  next
    case False
    with i wf show ?thesis by (auto simp: wf_dir_def)
  qed
  then obtain bs0 where ch: "chain (hdr st0) (heap_head st0) bs0" ..
  from m t0 i obtain found where ff: "first_fit (hdr st0) (heap_head st0) ?a = Some found"
    by (auto simp: malloc_def Let_def split: option.splits)
  show ?thesis
  proof (cases found)
    case (Some c)
    with first_fit_found [OF ch] ff have "?a \<le> size_f (hdr st0 c)" by simp
    then have "?a \<le> size_f (take_block (hdr st0) c ?a c)" by (rule take_block_size)
    moreover have "p = c + PADDED_HEADER_SIZE" "st1 = st0\<lparr>hdr := take_block (hdr st0) c ?a\<rparr>"
      using m t0 i ff Some by (auto simp: malloc_def Let_def)
    ultimately show ?thesis by simp
  next
    case None
    with m t0 i ff obtain l where "grow st0 l ?a = Some (Some p, st1)"
      by (auto simp: malloc_def Let_def split: option.splits)
    from grow_block_size [OF this] show ?thesis by simp
  qed
qed

lemma mapped_end_le: "mapped_end st \<le> 2 ^ 64"
proof -
  have "unat (brk st) < 2 ^ 64" using unsigned_less [of "brk st"] by simp
  then have "unat (brk st) + 4095 < (2 ^ 52 + 1) * 4096" by simp
  then have "(unat (brk st) + 4095) div 4096 < 2 ^ 52 + 1"
    by (rule less_mult_imp_div_less)
  then have "(unat (brk st) + 4095) div 4096 * 4096 \<le> 2 ^ 52 * 4096" by simp
  then show ?thesis by (simp add: mapped_end_def PAGE_SIZE_def)
qed

lemma memset_inside_payload:
  assumes wf: "wf_dir st bs" and m: "malloc st t = Some (Some p, st1)"
    and ms: "memset st1 p 0 t = Some st2"
  shows "t \<le> size_f (hdr st1 (p - PADDED_HEADER_SIZE))"
proof (cases "unat t + 15 < 2 ^ 64")
  case True
  then have "t \<le> align_up t" by (rule align_up_bounds)
  also have "align_up t \<le> size_f (hdr st1 (p - PADDED_HEADER_SIZE))"
    using wf m by (rule malloc_block_size)
  finally show ?thesis .
next
  case False
  have t0: "t \<noteq> 0" using m by (auto simp: malloc_def)
  have tl: "unat t < 2 ^ 64" using unsigned_less [of t] by simp
  have "(unat t + 15) mod 2 ^ 64 = (unat t + 15 - 2 ^ 64) mod 2 ^ 64"
    by (rule le_mod_geq) (use False in simp)
  also have "\<dots> = unat t + 15 - 2 ^ 64"
    by (rule mod_less) (use tl in simp)
  finally have "unat (t + 15) = unat t + 15 - 2 ^ 64" by (simp add: unat_word_ariths)
  then have lt16: "t + 15 < 16"
    using tl by (simp add: word_less_nat_alt)
  have z: "align_up t = 0"
  proof -
    have "unat ((t + 15) AND NOT 15) = unat (t + 15) div 16 * 16" by (rule unat_and_not_15)
    also have "\<dots> = 0" using lt16 by (simp add: word_less_nat_alt)
    finally have "(t + 15) AND NOT 15 = 0" by (simp add: unat_eq_0)
    then show ?thesis by (simp add: align_up_def ALGN_def)
  qed
  have ok: "unat (align_up t) + 48 < 2 ^ 63" by (simp add: z)
  from malloc_in_range [OF wf t0 ok] m
  obtain bs1 c where w1: "wf_dir st1 bs1" and c: "c \<in> set bs1"
    and p: "p = c + PADDED_HEADER_SIZE"
    by auto
  have "0 \<le> size_f (hdr st1 c)" by simp
  with w1 c have up: "unat p = unat c + 32" unfolding p by (rule payload_mapped)
  from ms t0 have "unat p + unat t \<le> mapped_end st1"
    by (auto simp: memset_def mapped_def split: if_splits)
  with mapped_end_le [of st1] up False show ?thesis by simp
qed

lemma memcpy_inside_payloads:
  assumes wf: "wf_dir st bs" and m: "malloc st sz = Some (Some new_ptr, st1)"
  shows "(if size_f (hdr st1 c) < align_up sz then size_f (hdr st1 c) else align_up sz)
           \<le> size_f (hdr st1 c) \<and>
         (if size_f (hdr st1 c) < align_up sz then size_f (hdr st1 c) else align_up sz)
           \<le> size_f (hdr st1 (new_ptr - PADDED_HEADER_SIZE))"
  using malloc_block_size [OF wf m] by auto

section \<open>Invariant 2 under malloc and free\<close>

text \<open>On a well-formed directory without two adjacent free blocks, every return of
  \<^verbatim>\<open>malloc\<close> and \<^verbatim>\<open>free\<close> leaves a directory without two adjacent free blocks.\<close>

lemma no_adjacent_free_mono:
  "(\<And>x. x \<in> set bs \<Longrightarrow> is_free (h' x) \<Longrightarrow> is_free (h x)) \<Longrightarrow>
   no_adjacent_free h bs \<Longrightarrow> no_adjacent_free h' bs"
  by (induction h bs rule: no_adjacent_free.induct) auto

lemma no_adjacent_free_snoc_used:
  "no_adjacent_free h bs \<Longrightarrow> \<not> is_free (h b) \<Longrightarrow> no_adjacent_free h (bs @ [b])"
  by (induction h bs rule: no_adjacent_free.induct) auto

lemma grow_keeps_no_adjacent_free:
  assumes ch: "chain (hdr st) (heap_head st) (pre @ [l])"
    and nb: "brk st \<notin> set (pre @ [l])"
    and inv: "no_adjacent_free (hdr st) (pre @ [l])"
    and g: "grow st l a = Some (r, st1)"
  shows "\<exists>bs1. chain (hdr st1) (heap_head st1) bs1 \<and> no_adjacent_free (hdr st1) bs1"
proof (cases r)
  case None
  with grow_on_chain [OF ch nb g] have "st1 = st\<lparr>errno := ENOMEM\<rparr>" by simp
  with ch inv show ?thesis by auto
next
  case (Some p)
  with grow_on_chain [OF ch nb g]
  have c1: "chain (hdr st1) (heap_head st1) (pre @ [l, brk st])"
    and used: "\<not> is_free (hdr st1 (brk st))"
    and same: "\<forall>x\<in>set (pre @ [l]). is_free (hdr st1 x) = is_free (hdr st x)"
    by auto
  have "no_adjacent_free (hdr st1) (pre @ [l]) = no_adjacent_free (hdr st) (pre @ [l])"
    by (rule no_adjacent_free_cong) (use same in auto)
  with inv have x: "no_adjacent_free (hdr st1) (pre @ [l])" by simp
  from no_adjacent_free_snoc_used [OF x used] c1 show ?thesis
    by (intro exI [of _ "pre @ [l, brk st]"]) simp
qed

lemma malloc_keeps_no_adjacent_free:
  assumes wf: "wf_dir st bs" and ne: "bs \<noteq> []" and req: "req \<noteq> 0"
    and inv: "no_adjacent_free (hdr st) bs"
    and ret: "malloc st req = Some (r, st1)"
  shows "\<exists>bs1. chain (hdr st1) (heap_head st1) bs1 \<and> no_adjacent_free (hdr st1) bs1"
proof -
  let ?a = "align_up req"
  let ?P = "\<lambda>b. is_free (hdr st b) \<and> ?a \<le> size_f (hdr st b)"
  from wf have ch: "chain (hdr st) (heap_head st) bs"
    and lay: "layout (hdr st) (unat ALGN) bs (unat (brk st))"
    by (simp_all add: wf_dir_def)
  show ?thesis
  proof (cases "\<exists>x\<in>set bs. ?P x")
    case True
    then obtain pre c post where d: "bs = pre @ c # post" "?P c" "\<forall>b\<in>set pre. \<not> ?P b"
      using split_list_first_prop [of bs ?P] by blast
    let ?nb = "c + PADDED_HEADER_SIZE + ?a"
    from malloc_first_fit_effect [OF wf [unfolded d(1)] req d(3)] d(2) ret
    have uc: "\<not> is_free (hdr st1 c)"
      and same: "\<forall>x\<in>set pre \<union> set post. is_free (hdr st1 x) = is_free (hdr st x)"
      and w: "if ?a + PADDED_HEADER_SIZE + ALGN \<le> size_f (hdr st c)
            then wf_dir st1 (pre @ c # ?nb # post) \<and>
                 size_f (hdr st1 c) = align_up req \<and>
                 next (hdr st1 c) = Some ?nb \<and>
                 hdr st1 ?nb =
                   \<lparr>size_f = size_f (hdr st c) - ?a - PADDED_HEADER_SIZE,
                    is_free = True, next = next (hdr st c), prev = Some c\<rparr>
            else wf_dir st1 (pre @ c # post) \<and>
                 hdr st1 = (hdr st)(c := (hdr st c)\<lparr>is_free := False\<rparr>)"
      by auto
    have less: "\<And>x. x \<in> set (pre @ c # post) \<Longrightarrow> is_free (hdr st1 x) \<Longrightarrow> is_free (hdr st x)"
      using uc same by auto
    show ?thesis
    proof (cases "?a + PADDED_HEADER_SIZE + ALGN \<le> size_f (hdr st c)")
      case False
      with w have "wf_dir st1 (pre @ c # post)" by simp
      then have "chain (hdr st1) (heap_head st1) (pre @ c # post)" by (simp add: wf_dir_def)
      moreover have "no_adjacent_free (hdr st1) (pre @ c # post)"
        using less inv [unfolded d(1)] by (rule no_adjacent_free_mono)
      ultimately show ?thesis by blast
    next
      case True
      with w have "wf_dir st1 (pre @ c # ?nb # post)" by simp
      then have c1: "chain (hdr st1) (heap_head st1) (pre @ c # ?nb # post)"
        by (simp add: wf_dir_def)
      from inv have i1: "no_adjacent_free (hdr st) (pre @ [c])"
        and i2: "no_adjacent_free (hdr st) (c # post)"
        using no_adjacent_free_split [of "hdr st" pre c post] by (simp_all add: d(1))
      have "no_adjacent_free (hdr st1) (pre @ [c])"
        using _ i1 by (rule no_adjacent_free_mono) (use less in auto)
      moreover have "no_adjacent_free (hdr st1) (c # ?nb # post)"
      proof -
        have "post = [] \<or> \<not> is_free (hdr st1 (hd post))"
          using i2 d(2) same by (cases post) auto
        moreover have "no_adjacent_free (hdr st1) post"
        proof -
          from i2 have "no_adjacent_free (hdr st) post"
            using no_adjacent_free_suffix [of "hdr st" "[c]" post] by simp
          moreover have "no_adjacent_free (hdr st1) post = no_adjacent_free (hdr st) post"
            by (rule no_adjacent_free_cong) (use same in auto)
          ultimately show ?thesis by simp
        qed
        ultimately have "no_adjacent_free (hdr st1) (?nb # post)"
          by (rule no_adjacent_free_after)
        then show ?thesis using uc by simp
      qed
      ultimately have "no_adjacent_free (hdr st1) (pre @ c # ?nb # post)"
        using no_adjacent_free_split [of "hdr st1" pre c "?nb # post"] by simp
      with c1 show ?thesis by blast
    qed
  next
    case False
    then have nf: "find ?P bs = None" by (simp add: find_None_iff)
    from ne obtain pre l where bs: "bs = pre @ [l]" by (cases bs rule: rev_cases) auto
    from ne obtain a as where cons: "bs = a # as" by (cases bs) auto
    with ch have hd: "heap_head st = Some a" and tl: "chain (hdr st) (next (hdr st a)) as"
      by simp_all
    have "last (a # as) = l" using cons bs by (metis last_snoc)
    then have lb: "last_block (hdr st) a = Some l"
      using last_block_chain [OF tl] by simp
    have ff: "first_fit (hdr st) (Some a) ?a = Some None"
      using first_fit_chain [OF ch, of ?a] nf hd by simp
    have "malloc st req = grow st l ?a"
      using req by (simp add: malloc_def Let_def hd ff lb)
    with ret have g: "grow st l ?a = Some (r, st1)" by simp
    have nb: "brk st \<notin> set (pre @ [l])" using lay unfolding bs by (rule brk_not_a_block)
    from ch [unfolded bs] nb inv [unfolded bs] g show ?thesis
      by (rule grow_keeps_no_adjacent_free)
  qed
qed

lemma free_keeps_no_adjacent_free:
  assumes "wf_dir st bs" and "no_adjacent_free (hdr st) bs"
    and "c \<in> set bs" and "\<not> is_free (hdr st c)"
  shows "\<exists>st' bs'. free st (Some (c + PADDED_HEADER_SIZE)) = Some st' \<and>
           wf_dir st' bs' \<and> no_adjacent_free (hdr st') bs'"
proof -
  from assms(3) obtain pre post where bs: "bs = pre @ c # post"
    by (auto simp: in_set_conv_decomp)
  from free_wf [OF assms(1) [unfolded bs] assms(4)] assms(2) show ?thesis
    unfolding bs by blast
qed

section \<open>The claims\<close>

subsection \<open>C1: no two adjacent free blocks\<close>

text \<open>Claim C1, evaluated where it fails. In a fresh process \<^verbatim>\<open>p = malloc(100)\<close> leaves
  the in-use block \<open>0x1000\<close> (size 112) before the free block \<open>0x1090\<close>, with no two
  free neighbours. \<^verbatim>\<open>realloc(p, 16)\<close> then splits the surplus of 64 bytes off as the free
  block \<open>0x1030\<close> and returns without looking at its successor: the directory is
  \<open>0x1000, 0x1030, 0x1090\<close> and the last two blocks are both free. This holds for the
  \<^verbatim>\<open>realloc\<close> of part\_001 and for the one of part\_000. (\<^verbatim>\<open>malloc\<close> and \<^verbatim>\<open>free\<close>
  keep the invariant: lemmas \<open>malloc_keeps_no_adjacent_free\<close> and
  \<open>free_keeps_no_adjacent_free\<close>.)\<close>

theorem realloc_shrink_adjacent_free:
  "malloc fresh_process 100 = Some (Some 0x1020, after_malloc_100) \<and>
   chain (hdr after_malloc_100) (heap_head after_malloc_100) [0x1000, 0x1090] \<and>
   no_adjacent_free (hdr after_malloc_100) [0x1000, 0x1090] \<and>
   result_of (realloc after_malloc_100 (Some 0x1020) 16) = Some 0x1020 \<and>
   chain (hdr (state_of (realloc after_malloc_100 (Some 0x1020) 16)))
         (heap_head (state_of (realloc after_malloc_100 (Some 0x1020) 16))) [0x1000, 0x1030, 0x1090] \<and>
   is_free (hdr (state_of (realloc after_malloc_100 (Some 0x1020) 16)) 0x1030) \<and>
   is_free (hdr (state_of (realloc after_malloc_100 (Some 0x1020) 16)) 0x1090) \<and>
   \<not> no_adjacent_free (hdr (state_of (realloc after_malloc_100 (Some 0x1020) 16)))
        [0x1000, 0x1030, 0x1090] \<and>
   result_of (realloc_p0 after_malloc_100 (Some 0x1020) 16) = Some 0x1020 \<and>
   chain (hdr (state_of (realloc_p0 after_malloc_100 (Some 0x1020) 16)))
         (heap_head (state_of (realloc_p0 after_malloc_100 (Some 0x1020) 16)))
         [0x1000, 0x1030, 0x1090] \<and>
   \<not> no_adjacent_free (hdr (state_of (realloc_p0 after_malloc_100 (Some 0x1020) 16)))
        [0x1000, 0x1030, 0x1090]"
proof -
  have "malloc fresh_process 100 = Some (Some 0x1020, after_malloc_100)"
    by (simp add: after_malloc_100_def run_defs)
  then show ?thesis
    by (simp add: realloc_def realloc_p0_def after_malloc_100_fields align_up_def ALGN_def
        PADDED_HEADER_SIZE_eq split_block_def split_block_p0_def field_writes Let_def
        check_debug_mode_designator_def pp_def state_of_def result_of_def)
qed

subsection \<open>C2: first fit and split\<close>

text \<open>Claim C2. Let \<open>st1\<close> be the state the search starts from: the state of the call,
  or the one left by the bootstrap of lines 39-67 when the directory was empty and the
  bootstrap got its memory. For a
  non-zero request, when the directory of \<open>st1\<close> is well formed and reads
  \<open>pre @ c # post\<close>, where \<open>c\<close> is the first block in head-to-tail order that is free
  and whose size is at least the 16-byte-aligned request (no block of \<open>pre\<close> is),
  \<^verbatim>\<open>malloc\<close> returns the payload address of \<open>c\<close> and marks \<open>c\<close> in use; the sizes and free
  flags of all other blocks, the break and the payload bytes stay as they were. When the
  size of \<open>c\<close> is at least the aligned request plus the padded header size plus one
  alignment unit (compared in \<^verbatim>\<open>size_t\<close> arithmetic, as the code does), \<open>c\<close> is split:
  its size becomes exactly the aligned request and a new free block of the residual size
  stands immediately after it in the directory, linked both ways. Otherwise \<open>c\<close> is
  handed out whole and only its free flag changes.\<close>

theorem malloc_first_fit:
  assumes req: "req \<noteq> 0"
    and init: "(if heap_head st = None then heap_init st (align_up req) else Some (Some st)) =
               Some (Some st1)"
    and wf: "wf_dir st1 (pre @ c # post)"
    and pre: "\<forall>b\<in>set pre. \<not> (is_free (hdr st1 b) \<and> align_up req \<le> size_f (hdr st1 b))"
    and free: "is_free (hdr st1 c)" and fit: "align_up req \<le> size_f (hdr st1 c)"
  shows "\<exists>st'. malloc st req = Some (Some (c + PADDED_HEADER_SIZE), st') \<and>
           \<not> is_free (hdr st' c) \<and> prev (hdr st' c) = prev (hdr st1 c) \<and>
           (\<forall>x\<in>set pre \<union> set post.
              size_f (hdr st' x) = size_f (hdr st1 x) \<and>
              is_free (hdr st' x) = is_free (hdr st1 x)) \<and>
           heap_head st' = heap_head st1 \<and> brk st' = brk st1 \<and> mem st' = mem st1 \<and>
           (if align_up req + PADDED_HEADER_SIZE + ALGN \<le> size_f (hdr st1 c)
            then wf_dir st' (pre @ c # (c + PADDED_HEADER_SIZE + align_up req) # post) \<and>
                 size_f (hdr st' c) = align_up req \<and>
                 next (hdr st' c) = Some (c + PADDED_HEADER_SIZE + align_up req) \<and>
                 hdr st' (c + PADDED_HEADER_SIZE + align_up req) =
                   \<lparr>size_f = size_f (hdr st1 c) - align_up req - PADDED_HEADER_SIZE,
                    is_free = True, next = next (hdr st1 c), prev = Some c\<rparr>
            else wf_dir st' (pre @ c # post) \<and>
                 hdr st' = (hdr st1)(c := (hdr st1 c)\<lparr>is_free := False\<rparr>))"
proof -
  have "malloc st req = malloc st1 req" using req init by (rule malloc_after_init)
  then show ?thesis using malloc_first_fit_effect [OF wf req pre free fit] by simp
qed

theorem malloc_first_fit_witness:
  "(100 :: size_t) \<noteq> 0 \<and>
   (if heap_head after_malloc_100 = None then heap_init after_malloc_100 (align_up 100)
    else Some (Some after_malloc_100)) = Some (Some after_malloc_100) \<and>
   wf_dir after_malloc_100 ([0x1000] @ 0x1090 # []) \<and>
   \<not> is_free (hdr after_malloc_100 0x1000) \<and>
   is_free (hdr after_malloc_100 0x1090) \<and>
   align_up 100 \<le> size_f (hdr after_malloc_100 0x1090) \<and>
   align_up 100 + PADDED_HEADER_SIZE + ALGN \<le> size_f (hdr after_malloc_100 0x1090) \<and>
   (\<exists>st'. malloc after_malloc_100 100 = Some (Some 0x10b0, st') \<and>
      wf_dir st' [0x1000, 0x1090, 0x1120] \<and>
      size_f (hdr st' 0x1090) = 112 \<and> \<not> is_free (hdr st' 0x1090) \<and>
      hdr st' 0x1120 = \<lparr>size_f = 65216, is_free = True, next = None, prev = Some 0x1090\<rparr>) \<and>
   (if heap_head fresh_process = None then heap_init fresh_process (align_up 100)
    else Some (Some fresh_process)) = Some (Some bootstrapped) \<and>
   wf_dir bootstrapped ([] @ 0x1000 # []) \<and>
   is_free (hdr bootstrapped 0x1000) \<and>
   align_up 100 \<le> size_f (hdr bootstrapped 0x1000) \<and>
   (\<exists>st'. malloc fresh_process 100 = Some (Some 0x1020, st') \<and>
      wf_dir st' [0x1000, 0x1090] \<and>
      size_f (hdr st' 0x1000) = 112 \<and> \<not> is_free (hdr st' 0x1000) \<and>
      hdr st' 0x1090 = \<lparr>size_f = 65360, is_free = True, next = None, prev = Some 0x1000\<rparr>)"
proof -
  have req: "(100 :: size_t) \<noteq> 0" by simp
  have init: "(if heap_head after_malloc_100 = None then heap_init after_malloc_100 (align_up 100)
      else Some (Some after_malloc_100)) = Some (Some after_malloc_100)"
    by (simp add: after_malloc_100_fields)
  have wf: "wf_dir after_malloc_100 ([0x1000] @ 0x1090 # [])"
    using after_malloc_100_wf by simp
  have pre: "\<forall>b\<in>set [0x1000]. \<not> (is_free (hdr after_malloc_100 b) \<and>
      align_up 100 \<le> size_f (hdr after_malloc_100 b))"
    by (simp add: after_malloc_100_fields)
  have used: "\<not> is_free (hdr after_malloc_100 0x1000)" by (simp add: after_malloc_100_fields)
  have free: "is_free (hdr after_malloc_100 0x1090)" by (simp add: after_malloc_100_fields)
  have fit: "align_up 100 \<le> size_f (hdr after_malloc_100 0x1090)"
    by (simp add: after_malloc_100_fields align_up_def ALGN_def)
  have big: "align_up 100 + PADDED_HEADER_SIZE + ALGN \<le> size_f (hdr after_malloc_100 0x1090)"
    by (simp add: after_malloc_100_fields align_up_def ALGN_def PADDED_HEADER_SIZE_eq)
  have init0: "(if heap_head fresh_process = None then heap_init fresh_process (align_up 100)
      else Some (Some fresh_process)) = Some (Some bootstrapped)"
    by (simp add: bootstrapped_fields) (simp add: fresh_process_def)
  have wf0: "wf_dir bootstrapped ([] @ 0x1000 # [])" using bootstrapped_wf by simp
  have pre0: "\<forall>b\<in>set []. \<not> (is_free (hdr bootstrapped b) \<and>
      align_up 100 \<le> size_f (hdr bootstrapped b))" by simp
  have free0: "is_free (hdr bootstrapped 0x1000)" by (simp add: bootstrapped_fields)
  have fit0: "align_up 100 \<le> size_f (hdr bootstrapped 0x1000)"
    by (simp add: bootstrapped_fields align_up_def ALGN_def)
  have 1: "\<exists>st'. malloc after_malloc_100 100 = Some (Some 0x10b0, st') \<and>
      wf_dir st' [0x1000, 0x1090, 0x1120] \<and>
      size_f (hdr st' 0x1090) = 112 \<and> \<not> is_free (hdr st' 0x1090) \<and>
      hdr st' 0x1120 = \<lparr>size_f = 65216, is_free = True, next = None, prev = Some 0x1090\<rparr>"
    using malloc_first_fit [OF req init wf pre free fit] big
    by (auto simp: after_malloc_100_fields align_up_def ALGN_def PADDED_HEADER_SIZE_eq)
  have 2: "\<exists>st'. malloc fresh_process 100 = Some (Some 0x1020, st') \<and>
      wf_dir st' [0x1000, 0x1090] \<and>
      size_f (hdr st' 0x1000) = 112 \<and> \<not> is_free (hdr st' 0x1000) \<and>
      hdr st' 0x1090 = \<lparr>size_f = 65360, is_free = True, next = None, prev = Some 0x1000\<rparr>"
    using malloc_first_fit [OF req init0 wf0 pre0 free0 fit0]
    by (auto simp: bootstrapped_fields align_up_def ALGN_def PADDED_HEADER_SIZE_eq)
  show ?thesis
    using req init wf used free fit big init0 wf0 free0 fit0 1 2 by simp
qed

subsection \<open>C3: releasing two adjacent blocks\<close>

text \<open>Claim C3 as stated fails when a neighbour of the pair is free: after two calls
  \<^verbatim>\<open>malloc(16)\<close> in a fresh process the in-use blocks \<open>0x1000\<close> and \<open>0x1030\<close> (16 bytes
  each) are adjacent and followed by the free block \<open>0x1060\<close>. Releasing both, in either
  order, leaves the single block \<open>0x1000\<close>, free, of size 65504 and not
  \<open>16 + 16 + 32 = 64\<close>.\<close>

theorem free_pair_counterexample:
  "chain (hdr after_two_mallocs) (heap_head after_two_mallocs) [0x1000, 0x1030, 0x1060] \<and>
   hdr after_two_mallocs 0x1000 = \<lparr>size_f = 16, is_free = False, next = Some 0x1030, prev = None\<rparr> \<and>
   hdr after_two_mallocs 0x1030 =
     \<lparr>size_f = 16, is_free = False, next = Some 0x1060, prev = Some 0x1000\<rparr> \<and>
   free_both after_two_mallocs (Some 0x1020) (Some 0x1050) \<noteq> None \<and>
   chain (hdr (the (free_both after_two_mallocs (Some 0x1020) (Some 0x1050))))
         (heap_head (the (free_both after_two_mallocs (Some 0x1020) (Some 0x1050)))) [0x1000] \<and>
   is_free (hdr (the (free_both after_two_mallocs (Some 0x1020) (Some 0x1050))) 0x1000) \<and>
   size_f (hdr (the (free_both after_two_mallocs (Some 0x1020) (Some 0x1050))) 0x1000) = 65504 \<and>
   size_f (hdr (the (free_both after_two_mallocs (Some 0x1050) (Some 0x1020))) 0x1000) = 65504 \<and>
   (16 :: size_t) + 16 + PADDED_HEADER_SIZE = 64"
  by (simp add: after_two_mallocs_fields free_run_defs)

text \<open>Claim C3, amended: let \<open>a\<close> and \<open>b\<close> be two in-use blocks that are adjacent in a
  well-formed directory, such that the block before \<open>a\<close> and the block after \<open>b\<close> are
  each absent or in use. Releasing both, in either order, ends in the same state: the
  directory has lost \<open>b\<close>, and \<open>a\<close> is free with a recorded size equal to the sum of the
  two usable sizes plus one padded header size (without wrap-around); every other block
  keeps its size and free flag, so \<open>a\<close> is the one free block that was not there before.\<close>

theorem free_adjacent_pair:
  assumes wf: "wf_dir st (pre @ a # b # post)"
    and ua: "\<not> is_free (hdr st a)" and ub: "\<not> is_free (hdr st b)"
    and np: "pre = [] \<or> \<not> is_free (hdr st (last pre))"
    and nn: "post = [] \<or> \<not> is_free (hdr st (hd post))"
  shows "\<exists>st'. free_both st (Some (a + PADDED_HEADER_SIZE)) (Some (b + PADDED_HEADER_SIZE)) = Some st' \<and>
           free_both st (Some (b + PADDED_HEADER_SIZE)) (Some (a + PADDED_HEADER_SIZE)) = Some st' \<and>
           wf_dir st' (pre @ a # post) \<and>
           is_free (hdr st' a) \<and>
           size_f (hdr st' a) = size_f (hdr st a) + size_f (hdr st b) + PADDED_HEADER_SIZE \<and>
           unat (size_f (hdr st' a)) =
             unat (size_f (hdr st a)) + unat (size_f (hdr st b)) + unat PADDED_HEADER_SIZE \<and>
           (\<forall>x\<in>set pre \<union> set post.
              size_f (hdr st' x) = size_f (hdr st x) \<and>
              is_free (hdr st' x) = is_free (hdr st x)) \<and>
           heap_head st' = heap_head st \<and> brk st' = brk st \<and> mem st' = mem st"
proof -
  let ?h = "hdr st"
  from wf have ch: "chain ?h (heap_head st) (pre @ a # b # post)"
    and bl: "back_links ?h None (pre @ a # b # post)"
    and lay: "layout ?h (unat ALGN) (pre @ a # b # post) (unat (brk st))"
    by (simp_all add: wf_dir_def)
  have hi: "unat (brk st) < 2 ^ 64" using unsigned_less [of "brk st"] by simp
  have dist: "distinct (pre @ a # b # post)" using ch by (rule chain_distinct)
  then have ab: "a \<noteq> b" and a_pre: "a \<notin> set pre" and b_pre: "b \<notin> set pre"
    and a_post: "a \<notin> set post" and b_post: "b \<notin> set post" by auto
  from ch have na: "next (?h a) = Some b" and tl: "chain ?h (next (?h b)) post"
    by (simp_all add: chain_split)
  from bl have pa: "prev (?h a) = last_or None pre" and pb: "prev (?h b) = Some a"
    by (simp_all add: back_links_split)
  have P: "\<And>q. prev (?h a) = Some q \<Longrightarrow> \<not> is_free (?h q) \<and> q \<noteq> a \<and> q \<noteq> b"
  proof -
    fix q assume "prev (?h a) = Some q"
    with pa have "pre \<noteq> []" and q: "q = last pre"
      by (auto simp: last_or_def split: if_splits)
    then have "q \<in> set pre" by simp
    then show "\<not> is_free (?h q) \<and> q \<noteq> a \<and> q \<noteq> b"
      using np a_pre b_pre \<open>pre \<noteq> []\<close> q by auto
  qed
  have N: "\<And>n. next (?h b) = Some n \<Longrightarrow> \<not> is_free (?h n) \<and> n \<noteq> a \<and> n \<noteq> b"
  proof -
    fix n assume "next (?h b) = Some n"
    with tl obtain ps where "post = n # ps" by (cases post) auto
    then show "\<not> is_free (?h n) \<and> n \<noteq> a \<and> n \<noteq> b"
      using nn a_post b_post by auto
  qed
  define H1 where "H1 = set_is_free ?h a True"
  define HB1 where "HB1 = set_is_free ?h b True"
  define H2 where "H2 = set_is_free H1 b True"
  have H2': "set_is_free HB1 a True = H2"
    using ab by (auto simp: H2_def H1_def HB1_def set_is_free_def fun_eq_iff)
  have H1_at: "H1 a = (?h a)\<lparr>is_free := True\<rparr>" "\<And>x. x \<noteq> a \<Longrightarrow> H1 x = ?h x"
    by (simp_all add: H1_def set_is_free_def)
  have HB1_at: "HB1 b = (?h b)\<lparr>is_free := True\<rparr>" "\<And>x. x \<noteq> b \<Longrightarrow> HB1 x = ?h x"
    by (simp_all add: HB1_def set_is_free_def)
  have H2_at: "\<And>x. next (H2 x) = next (?h x) \<and> prev (H2 x) = prev (?h x) \<and>
                   size_f (H2 x) = size_f (?h x)"
    "is_free (H2 a)" "is_free (H2 b)"
    "\<And>x. x \<noteq> a \<Longrightarrow> x \<noteq> b \<Longrightarrow> is_free (H2 x) = is_free (?h x)"
    using ab by (simp_all add: H2_def H1_def set_is_free_def)
  have A1: "free st (Some (a + PADDED_HEADER_SIZE)) = Some (st\<lparr>hdr := H1\<rparr>)"
    unfolding H1_def using ua na ub ab P by (intro free_plain) auto
  have A2: "free (st\<lparr>hdr := H1\<rparr>) (Some (b + PADDED_HEADER_SIZE)) =
              Some (st\<lparr>hdr := absorb H2 a b\<rparr>)"
    using free_into_prev [of "st\<lparr>hdr := H1\<rparr>" b a] ub ab pb N
    by (simp add: H1_at H2_def)
  have B1: "free st (Some (b + PADDED_HEADER_SIZE)) = Some (st\<lparr>hdr := HB1\<rparr>)"
    unfolding HB1_def using ub pb ua ab N by (intro free_plain) auto
  have B2: "free (st\<lparr>hdr := HB1\<rparr>) (Some (a + PADDED_HEADER_SIZE)) =
              Some (st\<lparr>hdr := absorb H2 a b\<rparr>)"
    using free_into_next [of "st\<lparr>hdr := HB1\<rparr>" a b] ua ab na N P
    by (simp add: HB1_at H2')
  have ch2: "chain H2 (heap_head st) (pre @ a # b # post)"
    using ch H2_at(1) by (simp add: chain_cong [of _ H2 ?h])
  have bl2: "back_links H2 None (pre @ a # b # post)"
    using bl H2_at(1) by (simp add: back_links_cong [of _ H2 ?h])
  have lay2: "layout H2 (unat ALGN) (pre @ a # b # post) (unat (brk st))"
    using lay H2_at(1) by (simp add: layout_cong [of _ H2 ?h])
  note W = absorb_wf [OF ch2 bl2 lay2 hi refl]
  let ?st' = "st\<lparr>hdr := absorb H2 a b\<rparr>"
  have 1: "wf_dir ?st' (pre @ a # post)" using W by (simp add: wf_dir_def)
  have 2: "is_free (hdr ?st' a)" by (simp add: absorb_is_free H2_at)
  have 3: "size_f (hdr ?st' a) = size_f (?h a) + size_f (?h b) + PADDED_HEADER_SIZE"
    using W by (simp add: H2_at(1) add_ac)
  have 4: "unat (size_f (hdr ?st' a)) =
             unat (size_f (?h a)) + unat (size_f (?h b)) + unat PADDED_HEADER_SIZE"
  proof -
    from W have "unat (size_f (absorb H2 a b a)) = unat (size_f (H2 a)) + 32 + unat (size_f (H2 b))"
      by blast
    then show ?thesis by (simp add: H2_at(1) PADDED_HEADER_SIZE_eq)
  qed
  have 5: "\<forall>x\<in>set pre \<union> set post.
              size_f (hdr ?st' x) = size_f (?h x) \<and> is_free (hdr ?st' x) = is_free (?h x)"
  proof
    fix x assume x: "x \<in> set pre \<union> set post"
    then have ne: "x \<noteq> a" "x \<noteq> b" using a_pre b_pre a_post b_post by auto
    have "size_f (absorb H2 a b x) = size_f (H2 x)" using W x by auto
    then show "size_f (hdr ?st' x) = size_f (?h x) \<and> is_free (hdr ?st' x) = is_free (?h x)"
      using ne by (simp add: absorb_is_free H2_at)
  qed
  have "free_both st (Some (a + PADDED_HEADER_SIZE)) (Some (b + PADDED_HEADER_SIZE)) = Some ?st'"
    by (simp add: free_both_def A1 A2)
  moreover
  have "free_both st (Some (b + PADDED_HEADER_SIZE)) (Some (a + PADDED_HEADER_SIZE)) = Some ?st'"
    by (simp add: free_both_def B1 B2)
  ultimately show ?thesis using 1 2 3 4 5 by (intro exI [of _ ?st']) simp
qed

theorem free_adjacent_pair_witness:
  "wf_dir after_three_mallocs ([] @ 0x1000 # 0x1030 # [0x1060, 0x1090]) \<and>
   \<not> is_free (hdr after_three_mallocs 0x1000) \<and>
   \<not> is_free (hdr after_three_mallocs 0x1030) \<and>
   \<not> is_free (hdr after_three_mallocs (hd [0x1060, 0x1090])) \<and>
   (\<exists>st'. free_both after_three_mallocs (Some 0x1020) (Some 0x1050) = Some st' \<and>
      free_both after_three_mallocs (Some 0x1050) (Some 0x1020) = Some st' \<and>
      wf_dir st' [0x1000, 0x1060, 0x1090] \<and>
      is_free (hdr st' 0x1000) \<and> size_f (hdr st' 0x1000) = 64 \<and>
      \<not> is_free (hdr st' 0x1060) \<and> is_free (hdr st' 0x1090))"
proof -
  have wf: "wf_dir after_three_mallocs ([] @ 0x1000 # 0x1030 # [0x1060, 0x1090])"
    using after_three_mallocs_wf by simp
  have ua: "\<not> is_free (hdr after_three_mallocs 0x1000)"
    and ub: "\<not> is_free (hdr after_three_mallocs 0x1030)"
    by (simp_all add: after_three_mallocs_fields)
  have np: "([] :: addr list) = [] \<or> \<not> is_free (hdr after_three_mallocs (last []))" by simp
  have nn: "[0x1060, 0x1090 :: addr] = [] \<or>
            \<not> is_free (hdr after_three_mallocs (hd [0x1060, 0x1090]))"
    by (simp add: after_three_mallocs_fields)
  from free_adjacent_pair [OF wf ua ub np nn] wf ua ub nn
  show ?thesis
    by (auto simp: after_three_mallocs_fields PADDED_HEADER_SIZE_eq)
qed

subsection \<open>C4: the first grant\<close>

text \<open>Claim C4 as stated fails for the aligned need \<open>s = 65504\<close>: the first call obtains
  64 KiB from the operating system, while
  \<open>max (64 KiB) (padded header + s + alignment unit)\<close> is 65552.\<close>

theorem first_grant_counterexample:
  "heap_head fresh_process = None \<and> align_up 65504 = 65504 \<and>
   result_of (malloc fresh_process 65504) = Some 0x1020 \<and>
   brk (state_of (malloc fresh_process 65504)) - brk fresh_process = 64 * 1024 \<and>
   max (64 * 1024) (PADDED_HEADER_SIZE + align_up 65504 + ALGN) = (65552 :: size_t)"
  by (simp add: run_defs)

text \<open>Claim C4, amended: on the first request (empty directory) with aligned need \<open>s\<close>,
  where padded header + \<open>s\<close> + one alignment unit is below \<open>2 ^ 63\<close> (the sum does not
  wrap around and is positive as the signed increment of \<^verbatim>\<open>sbrk\<close>), the amount asked of
  the operating system is 64 KiB when padded header + \<open>s\<close> is at most 64 KiB, and padded
  header + \<open>s\<close> + one alignment unit otherwise. When the operating system grants it, the
  break moves up by exactly that amount and the grant is installed at the old break as a
  single free block of size grant - padded header, the only entry of the directory; the
  request then proceeds as on an initialised directory.\<close>

theorem heap_init_grant:
  assumes "heap_head st = None" and "req \<noteq> 0"
    and "unat PADDED_HEADER_SIZE + unat (align_up req) + unat ALGN < 2 ^ 63"
    and "sbrk st (first_request_size (align_up req)) = (Some block, st')"
  shows "first_request_size (align_up req) =
           (if PADDED_HEADER_SIZE + align_up req \<le> 64 * 1024 then 64 * 1024
            else PADDED_HEADER_SIZE + align_up req + ALGN) \<and>
         unat (first_request_size (align_up req)) =
           (if unat PADDED_HEADER_SIZE + unat (align_up req) \<le> 64 * 1024 then 64 * 1024
            else unat PADDED_HEADER_SIZE + unat (align_up req) + unat ALGN) \<and>
         (\<exists>st1. heap_init st (align_up req) = Some (Some st1) \<and>
            block = brk st \<and>
            unat (brk st1) = unat (brk st) + unat (first_request_size (align_up req)) \<and>
            heap_head st1 = Some block \<and>
            hdr st1 block = \<lparr>size_f = first_request_size (align_up req) - PADDED_HEADER_SIZE,
                              is_free = True, next = None, prev = None\<rparr> \<and>
            unat (size_f (hdr st1 block)) =
              unat (first_request_size (align_up req)) - unat PADDED_HEADER_SIZE \<and>
            chain (hdr st1) (heap_head st1) [block] \<and>
            malloc st req = malloc st1 req)"
proof -
  let ?a = "align_up req"
  let ?R = "first_request_size ?a"
  have p32: "unat PADDED_HEADER_SIZE = 32" "unat ALGN = 16"
    by (simp_all add: PADDED_HEADER_SIZE_eq ALGN_def)
  have ok: "unat ?a + 48 < 2 ^ 63" using assms(3) by (simp add: p32)
  note R = first_request_size_nat [OF ok]
  have 1: "unat ?R = (if unat PADDED_HEADER_SIZE + unat ?a \<le> 64 * 1024 then 64 * 1024
            else unat PADDED_HEADER_SIZE + unat ?a + unat ALGN)"
    using R(2) by (simp add: p32 add.commute)
  from heap_init_in_range [OF ok, of st] assms(4)
  obtain st1 where h: "heap_init st ?a = Some (Some st1)"
    and b: "block = brk st"
    and st1: "st1 = st\<lparr>brk := brk st + ?R,
                      hdr := (hdr st)(brk st := \<lparr>size_f = ?R - PADDED_HEADER_SIZE, is_free = True,
                                                 next = None, prev = None\<rparr>),
                      heap_head := Some (brk st)\<rparr>"
    and up: "unat (brk st + ?R) = unat (brk st) + unat ?R"
    by auto
  have init: "(if heap_head st = None then heap_init st ?a else Some (Some st)) = Some (Some st1)"
    using assms(1) h by simp
  have m: "malloc st req = malloc st1 req" using assms(2) init by (rule malloc_after_init)
  have 2: "unat (brk st1) = unat (brk st) + unat ?R" using up by (simp add: st1)
  have 3: "hdr st1 block = \<lparr>size_f = ?R - PADDED_HEADER_SIZE, is_free = True,
                            next = None, prev = None\<rparr>"
    and 4: "heap_head st1 = Some block" and 5: "chain (hdr st1) (heap_head st1) [block]"
    by (simp_all add: st1 b)
  have 6: "unat (size_f (hdr st1 block)) = unat ?R - unat PADDED_HEADER_SIZE"
    using R(3) by (simp add: 3 p32)
  show ?thesis using R(1) 1 h b 2 3 4 5 6 m by blast
qed

theorem heap_init_grant_witness:
  "heap_head fresh_process = None \<and> (65504 :: size_t) \<noteq> 0 \<and>
   unat PADDED_HEADER_SIZE + unat (align_up 65504) + unat ALGN < 2 ^ 63 \<and>
   sbrk fresh_process (first_request_size (align_up 65504)) =
     (Some 0x1000, fresh_process\<lparr>brk := 0x11000\<rparr>) \<and>
   first_request_size (align_up 65504) = 64 * 1024 \<and>
   (\<exists>st1. heap_init fresh_process (align_up 65504) = Some (Some st1) \<and>
      brk st1 = 0x11000 \<and>
      hdr st1 0x1000 = \<lparr>size_f = 65504, is_free = True, next = None, prev = None\<rparr> \<and>
      chain (hdr st1) (heap_head st1) [0x1000]) \<and>
   (100000 :: size_t) \<noteq> 0 \<and>
   unat PADDED_HEADER_SIZE + unat (align_up 100000) + unat ALGN < 2 ^ 63 \<and>
   sbrk fresh_process (first_request_size (align_up 100000)) =
     (Some 0x1000, fresh_process\<lparr>brk := 0x196D0\<rparr>) \<and>
   first_request_size (align_up 100000) = 100048 \<and>
   (\<exists>st1. heap_init fresh_process (align_up 100000) = Some (Some st1) \<and>
      unat (brk st1) = 0x1000 + 100048 \<and>
      hdr st1 0x1000 = \<lparr>size_f = 100016, is_free = True, next = None, prev = None\<rparr> \<and>
      chain (hdr st1) (heap_head st1) [0x1000])"
proof -
  have a: "heap_head fresh_process = None" by (simp add: fresh_process_def)
  have b: "(65504 :: size_t) \<noteq> 0" and b': "(100000 :: size_t) \<noteq> 0" by simp_all
  have k: "unat PADDED_HEADER_SIZE + unat (align_up 65504) + unat ALGN < 2 ^ 63"
    and k': "unat PADDED_HEADER_SIZE + unat (align_up 100000) + unat ALGN < 2 ^ 63"
    by (simp_all add: PADDED_HEADER_SIZE_eq align_up_def ALGN_def)
  have c: "sbrk fresh_process (first_request_size (align_up 65504)) =
     (Some 0x1000, fresh_process\<lparr>brk := 0x11000\<rparr>)"
    and c': "sbrk fresh_process (first_request_size (align_up 100000)) =
     (Some 0x1000, fresh_process\<lparr>brk := 0x196D0\<rparr>)"
    by (simp_all add: run_defs)
  have d: "first_request_size (align_up 65504) = 64 * 1024"
    and d': "first_request_size (align_up 100000) = 100048"
    by (simp_all add: run_defs)
  have 1: "\<exists>st1. heap_init fresh_process (align_up 65504) = Some (Some st1) \<and>
      brk st1 = 0x11000 \<and>
      hdr st1 0x1000 = \<lparr>size_f = 65504, is_free = True, next = None, prev = None\<rparr> \<and>
      chain (hdr st1) (heap_head st1) [0x1000]"
    using heap_init_grant [OF a b k c]
    by (auto simp: d fresh_process_def PADDED_HEADER_SIZE_eq word_unat_eq_iff)
  have 2: "\<exists>st1. heap_init fresh_process (align_up 100000) = Some (Some st1) \<and>
      unat (brk st1) = 0x1000 + 100048 \<and>
      hdr st1 0x1000 = \<lparr>size_f = 100016, is_free = True, next = None, prev = None\<rparr> \<and>
      chain (hdr st1) (heap_head st1) [0x1000]"
    using heap_init_grant [OF a b' k' c']
    by (auto simp: d' fresh_process_def PADDED_HEADER_SIZE_eq)
  show ?thesis using a b b' k k' c c' d d' 1 2 by simp
qed

subsection \<open>C5: relocation by realloc\<close>

text \<open>Where the sizes stay in range, \<^verbatim>\<open>realloc\<close> does what claim C5 says. Let \<open>p\<close> be the
  payload of an in-use block \<open>c\<close> of a well-formed directory, let the new size force the
  relocation path (non-zero, aligned size above the size of \<open>c\<close>, no expansion in place),
  and let the aligned size plus the padded header and one alignment unit be below
  \<open>2 ^ 63\<close>. Then \<^verbatim>\<open>realloc\<close> returns. When the \<^verbatim>\<open>malloc\<close> of the replacement fails, the
  result is \<^verbatim>\<open>NULL\<close> and the state is the one before the call up to \<^verbatim>\<open>errno = ENOMEM\<close>:
  headers, free flags, payload bytes, directory and break are untouched. Otherwise the
  result is the pointer \<^verbatim>\<open>malloc\<close> returned, the old block is still in use when the copy
  is made, its first \<open>min (old usable size) (aligned new size)\<close> payload bytes are read
  back at the new pointer (no other byte changes), and the old block has gone through
  \<^verbatim>\<open>free\<close> and is free, in a well-formed directory.\<close>

lemma realloc_relocation_in_range:
  assumes wf: "wf_dir st bs" and c: "c \<in> set bs" and used: "\<not> is_free (hdr st c)"
    and sz: "sz \<noteq> 0" and small: "size_f (hdr st c) < align_up sz"
    and noexp: "expand_in_place (hdr st) c (align_up sz) = None"
    and ok: "unat (align_up sz) + 48 < 2 ^ 63"
  shows "\<exists>r st'. realloc st (Some (c + PADDED_HEADER_SIZE)) sz = Some (r, st') \<and>
     (case r of
        None \<Rightarrow> malloc st sz = Some (None, st') \<and> st' = st\<lparr>errno := ENOMEM\<rparr>
      | Some new_ptr \<Rightarrow>
          (\<exists>st1 st2 bs'. malloc st sz = Some (Some new_ptr, st1) \<and>
             \<not> is_free (hdr st1 c) \<and>
             memcpy st1 new_ptr (c + PADDED_HEADER_SIZE)
               (min (size_f (hdr st c)) (align_up sz)) = Some st2 \<and>
             free st2 (Some (c + PADDED_HEADER_SIZE)) = Some st' \<and>
             wf_dir st' bs' \<and> is_free (hdr st' c) \<and>
             (\<forall>a. mem st' a =
                    (if a - new_ptr < min (size_f (hdr st c)) (align_up sz)
                     then mem st (c + PADDED_HEADER_SIZE + (a - new_ptr))
                     else mem st a))))"
proof -
  let ?p = "c + PADDED_HEADER_SIZE"
  let ?a = "align_up sz"
  let ?n = "min (size_f (hdr st c)) ?a"
  have rl: "realloc st (Some ?p) sz = relocate st ?p sz"
    using sz small noexp by (simp add: realloc_def Let_def not_le [symmetric])
  have n: "?n = size_f (hdr st c)" using small by (auto simp: min_def)
  from malloc_in_range [OF wf sz ok]
  obtain r st1 where m: "malloc st sz = Some (r, st1)" and mem1: "mem st1 = mem st"
    and res: "case r of
              None \<Rightarrow> st1 = st\<lparr>errno := ENOMEM\<rparr>
            | Some p \<Rightarrow>
                (\<exists>bs1 k. wf_dir st1 bs1 \<and> set bs \<subseteq> set bs1 \<and> k \<in> set bs1 \<and>
                   p = k + PADDED_HEADER_SIZE \<and> \<not> is_free (hdr st1 k) \<and>
                   ?a \<le> size_f (hdr st1 k) \<and>
                   (k \<in> set bs \<longrightarrow> is_free (hdr st k)) \<and>
                   (\<forall>x\<in>set bs. x \<noteq> k \<longrightarrow>
                      size_f (hdr st1 x) = size_f (hdr st x) \<and>
                      is_free (hdr st1 x) = is_free (hdr st x)))"
    by blast
  show ?thesis
  proof (cases r)
    case None
    with m res show ?thesis by (simp add: rl relocate_def Let_def)
  next
    case (Some new_ptr)
    with res obtain bs1 k where w1: "wf_dir st1 bs1" and sub: "set bs \<subseteq> set bs1"
      and k: "k \<in> set bs1" and np: "new_ptr = k + PADDED_HEADER_SIZE"
      and fit: "?a \<le> size_f (hdr st1 k)"
      and kf: "k \<in> set bs \<longrightarrow> is_free (hdr st k)"
      and others: "\<forall>x\<in>set bs. x \<noteq> k \<longrightarrow>
                      size_f (hdr st1 x) = size_f (hdr st x) \<and>
                      is_free (hdr st1 x) = is_free (hdr st x)"
      by auto
    have ck: "c \<noteq> k" using kf c used by auto
    with others c used have sc: "size_f (hdr st1 c) = size_f (hdr st c)"
      and uc: "\<not> is_free (hdr st1 c)" by auto
    have c1: "c \<in> set bs1" using c sub by auto
    have cs: "(if size_f (hdr st1 c) < ?a then size_f (hdr st1 c) else ?a) = ?n"
      using small by (auto simp: sc min_def)
    have "?n \<le> size_f (hdr st1 k)" using small fit by (simp add: n)
    with w1 k have m1: "mapped st1 new_ptr ?n" unfolding np by (rule payload_mapped)
    have "?n \<le> size_f (hdr st1 c)" by (simp add: n sc)
    with w1 c1 have m2: "mapped st1 ?p ?n" by (rule payload_mapped)
    define st2 where "st2 = st1\<lparr>mem := (\<lambda>a. if a - new_ptr < ?n then mem st1 (?p + (a - new_ptr))
                                           else mem st1 a)\<rparr>"
    have cp: "memcpy st1 new_ptr ?p ?n = Some st2"
      using m1 m2 by (simp add: memcpy_def st2_def)
    from c1 obtain pre post where d: "bs1 = pre @ c # post"
      by (auto simp: in_set_conv_decomp)
    have "wf_dir st2 bs1 = wf_dir st1 bs1"
      by (rule wf_dir_cong) (simp_all add: st2_def)
    with w1 have w2: "wf_dir st2 (pre @ c # post)" by (simp add: d)
    have u2: "\<not> is_free (hdr st2 c)" using uc by (simp add: st2_def)
    from free_wf [OF w2 u2]
    obtain st' bs' where f: "free st2 (Some ?p) = Some st'" and w': "wf_dir st' bs'"
      and fc: "is_free (hdr st' c)" and fm: "mem st' = mem st2" by blast
    have rel: "relocate st ?p sz = Some (Some new_ptr, st')"
      using m Some cp f by (simp add: relocate_def Let_def cs)
    have "\<forall>a. mem st' a = (if a - new_ptr < ?n then mem st (?p + (a - new_ptr)) else mem st a)"
      by (simp add: fm st2_def mem1)
    then show ?thesis
      using rel m Some uc cp f w' fc by (simp add: rl) blast
  qed
qed

text \<open>Claim C5, evaluated where it fails: the new size \<^verbatim>\<open>SIZE_MAX - 100\<close>. After two calls
  \<^verbatim>\<open>malloc(16)\<close> the block \<open>0x1000\<close> is in use with 16 bytes, and \<^verbatim>\<open>realloc(p, SIZE_MAX - 100)\<close>
  takes the relocation path. In \<^verbatim>\<open>malloc\<close> the size is rounded to \<open>2 ^ 64 - 96\<close>, no block
  fits, and the increment of line 113 wraps around to \<open>2 ^ 64 - 48\<close>, which \<^verbatim>\<open>sbrk\<close>
  reads as -48: the break moves down from \<open>0x11000\<close> to \<open>0x10fd0\<close> and the old break is
  returned as the new block. The store of line 120 to that address is outside the mapped
  memory, so the call does not return: \<^verbatim>\<open>realloc\<close> does not report the failure. When it is
  \<^verbatim>\<open>sbrk\<close> that refuses the replacement (the process \<open>exhausted\<close>, new size 100000),
  \<^verbatim>\<open>realloc\<close> returns \<^verbatim>\<open>NULL\<close> and leaves the state as it was, up to \<^verbatim>\<open>errno\<close>.\<close>

theorem realloc_relocation_overflow:
  "wf_dir with_payload [0x1000, 0x1030, 0x1060] \<and>
   \<not> is_free (hdr with_payload 0x1000) \<and>
   align_up (SIZE_MAX - 100) = - 96 \<and>
   size_f (hdr with_payload 0x1000) < align_up (SIZE_MAX - 100) \<and>
   expand_in_place (hdr with_payload) 0x1000 (align_up (SIZE_MAX - 100)) = None \<and>
   sint (PADDED_HEADER_SIZE + align_up (SIZE_MAX - 100) + ALGN) = - 48 \<and>
   sbrk with_payload (PADDED_HEADER_SIZE + align_up (SIZE_MAX - 100) + ALGN) =
     (Some 0x11000, with_payload\<lparr>brk := 0x10fd0\<rparr>) \<and>
   \<not> mapped (with_payload\<lparr>brk := 0x10fd0\<rparr>) 0x11000 HEADER_SIZE \<and>
   malloc with_payload (SIZE_MAX - 100) = None \<and>
   realloc with_payload (Some 0x1020) (SIZE_MAX - 100) = None \<and>
   realloc exhausted (Some 0x1020) 100000 = Some (None, exhausted\<lparr>errno := ENOMEM\<rparr>)"
proof -
  have a: "align_up (SIZE_MAX - 100) = - 96"
    by (simp add: align_up_def ALGN_def SIZE_MAX_def)
  have s: "sbrk with_payload (- 48) = (Some 0x11000, with_payload\<lparr>brk := 0x10fd0\<rparr>)"
    by (simp add: sbrk_def Let_def with_payload_fields with_payload_def after_two_mallocs_def
        after_malloc_16_def run_defs)
  have u: "\<not> mapped (with_payload\<lparr>brk := 0x10fd0\<rparr>) 0x11000 HEADER_SIZE"
    by (simp add: mapped_defs)
  have z: "SIZE_MAX - 100 \<noteq> 0" by (simp add: SIZE_MAX_def)
  have g: "grow with_payload 0x1060 (- 96) = None"
    using u by (simp add: grow_def PADDED_HEADER_SIZE_eq ALGN_def s)
  have m: "malloc with_payload (SIZE_MAX - 100) = None"
    using z by (simp add: malloc_def a g with_payload_fields after_two_mallocs_fields
        first_fit.simps last_block.simps)
  have e0: "expand_in_place (hdr after_two_mallocs) 0x1000 (- 96) = None"
    by (simp add: expand_in_place_def after_two_mallocs_fields)
  then have e: "expand_in_place (hdr with_payload) 0x1000 (- 96) = None"
    by (simp add: with_payload_fields)
  have r: "realloc with_payload (Some 0x1020) (SIZE_MAX - 100) = None"
    using z by (simp add: realloc_def relocate_def a m e0 with_payload_fields
        after_two_mallocs_fields PADDED_HEADER_SIZE_eq)
  have m2: "malloc exhausted 100000 = Some (None, exhausted\<lparr>errno := ENOMEM\<rparr>)"
    by (simp add: with_payload_fields after_two_mallocs_fields malloc_def align_up_def ALGN_def
        PADDED_HEADER_SIZE_eq first_fit.simps last_block.simps grow_def sbrk_def Let_def)
  have x: "realloc exhausted (Some 0x1020) 100000 = Some (None, exhausted\<lparr>errno := ENOMEM\<rparr>)"
    by (simp add: realloc_def relocate_def m2 expand_in_place_def with_payload_fields
        after_two_mallocs_fields align_up_def ALGN_def PADDED_HEADER_SIZE_eq)
  show ?thesis
    using with_payload_wf(1) a s u m e r x
    by (simp add: with_payload_fields after_two_mallocs_fields PADDED_HEADER_SIZE_eq ALGN_def)
qed


subsection \<open>C6: calloc\<close>

text \<open>Claim C6 as stated fails in its last part: \<^verbatim>\<open>calloc\<close> zeroes the \<open>nmemb * size\<close>
  bytes it was asked for (line 208), not the whole payload of the block it returns. In
  the process \<open>reused_process\<close>, \<^verbatim>\<open>calloc(3, 5)\<close> returns \<open>0x1020\<close>, the payload of the
  block \<open>0x1000\<close> whose usable size is 16; the byte \<open>0x102E\<close> reads back as zero, and
  the last byte of the payload, \<open>0x102F\<close>, still holds the \<open>0xFF\<close> of the previous
  owner.\<close>

theorem calloc_payload_counterexample:
  "result_of (calloc reused_process 3 5) = Some 0x1020 \<and>
   hdr (state_of (calloc reused_process 3 5)) 0x1000 =
     \<lparr>size_f = 16, is_free = False, next = Some 0x1030, prev = None\<rparr> \<and>
   mem (state_of (calloc reused_process 3 5)) 0x102E = 0 \<and>
   mem (state_of (calloc reused_process 3 5)) 0x102F = 0xFF"
proof -
  define S1 where "S1 = state_of (malloc reused_process 15)"
  have g: "\<not> ((3 :: size_t) > 0 \<and> (5 :: size_t) > 0 \<and> 3 > SIZE_MAX div 5)"
    using overflow_guard [of 3 5] by simp
  have m: "malloc reused_process 15 = Some (Some 0x1020, S1)"
    unfolding S1_def
    by (simp add: reused_process_fields malloc_def align_up_def ALGN_def PADDED_HEADER_SIZE_eq
        first_fit.simps state_of_def Let_def)
  have f: "mem S1 = (\<lambda>a. if a - 0x1020 < 16 then 0xFF else 0)"
    "hdr S1 0x1000 = \<lparr>size_f = 16, is_free = False, next = Some 0x1030, prev = None\<rparr>"
    "brk S1 = 0x11000"
    unfolding S1_def
    by (simp_all add: reused_process_fields malloc_def align_up_def ALGN_def PADDED_HEADER_SIZE_eq
        first_fit.simps take_block_def split_block_def field_writes state_of_def Let_def)
  have w: "mapped S1 0x1020 15" by (simp add: mapped_defs f)
  show ?thesis
    using g by (simp add: calloc_def m memset_def w f state_of_def result_of_def)
qed

text \<open>A product above \<^verbatim>\<open>SIZE_MAX - 15\<close> passes the guard of line 196 and is rounded to 0
  by \<^verbatim>\<open>malloc\<close>: the block returned has no payload, and \<^verbatim>\<open>memset\<close> runs from its pointer over
  the headers that follow and off the mapped memory. The call does not return.\<close>

lemma calloc_rounding_wraps:
  "align_up (1 * SIZE_MAX) = 0 \<and>
   malloc fresh_process (1 * SIZE_MAX) \<noteq> None \<and>
   result_of (malloc fresh_process (1 * SIZE_MAX)) = Some 0x1020 \<and>
   size_f (hdr (state_of (malloc fresh_process (1 * SIZE_MAX))) 0x1000) = 0 \<and>
   \<not> mapped (state_of (malloc fresh_process (1 * SIZE_MAX))) 0x1020 (1 * SIZE_MAX) \<and>
   calloc fresh_process 1 SIZE_MAX = None"
  by (simp add: calloc_def memset_def SIZE_MAX_def run_defs unsigned_minus_1_eq_mask
      mask_eq_exp_minus_1)

text \<open>A product below \<open>2 ^ 63 - 63\<close> is rounded without wrap-around and lies inside the
  payload of the block \<^verbatim>\<open>malloc\<close> returns, in mapped memory: \<^verbatim>\<open>memset\<close> returns and writes
  no header.\<close>

lemma calloc_in_range:
  assumes wf: "wf_dir st bs" and ok: "unat t + 63 < 2 ^ 63"
    and m: "malloc st t = Some (Some p, st1)"
  shows "memset st1 p 0 t =
           Some (st1\<lparr>mem := (\<lambda>a. if a - p < t then 0 else mem st a)\<rparr>) \<and>
         t \<le> size_f (hdr st1 (p - PADDED_HEADER_SIZE))"
proof -
  have t0: "t \<noteq> 0" using m by (auto simp: malloc_def)
  have r: "unat t + 15 < 2 ^ 64" using ok by simp
  note al = align_up_bounds [OF r]
  have ok': "unat (align_up t) + 48 < 2 ^ 63" using al(2) ok by simp
  from malloc_in_range [OF wf t0 ok'] m
  obtain bs1 c where w1: "wf_dir st1 bs1" and c: "c \<in> set bs1"
    and p: "p = c + PADDED_HEADER_SIZE" and fit: "align_up t \<le> size_f (hdr st1 c)"
    and mem1: "mem st1 = mem st"
    by auto
  have le: "t \<le> size_f (hdr st1 c)" using al(1) fit by (rule order_trans)
  with w1 c have "mapped st1 p t" unfolding p by (rule payload_mapped)
  then show ?thesis using le by (simp add: memset_def mem1 p cong: if_cong)
qed

text \<open>Claim C6, amended: \<^verbatim>\<open>calloc(nmemb, size)\<close> takes the overflow exit, returning
  \<^verbatim>\<open>NULL\<close> with \<^verbatim>\<open>errno = ENOMEM\<close> and nothing else of the state changed, exactly when
  \<open>nmemb > 0\<close>, \<open>size > 0\<close> and \<open>nmemb > SIZE_MAX / size\<close>, which is exactly when the
  product does not fit in a \<^verbatim>\<open>size_t\<close>. Otherwise it is \<^verbatim>\<open>malloc(nmemb * size)\<close>: a call of
  \<^verbatim>\<open>malloc\<close> that does not return, or that returns \<^verbatim>\<open>NULL\<close>, is passed on with
  \<^verbatim>\<open>malloc\<close>'s state unchanged. On a well-formed directory and for a product below
  \<open>2 ^ 63 - 63\<close>, \<^verbatim>\<open>malloc\<close> returns, and on success the first \<open>nmemb * size\<close> bytes at the
  returned pointer read back as zero; they lie inside the payload of the returned block,
  and all other bytes, the directory and the break are as \<^verbatim>\<open>malloc\<close> left them. In
  particular \<^verbatim>\<open>calloc(SIZE_MAX, 2)\<close> returns \<^verbatim>\<open>NULL\<close>.\<close>

theorem calloc_zero_fill:
  "((nmemb > 0 \<and> sz > 0 \<and> nmemb > SIZE_MAX div sz) = (2 ^ 64 \<le> unat nmemb * unat sz)) \<and>
   (if nmemb > 0 \<and> sz > 0 \<and> nmemb > SIZE_MAX div sz
    then calloc st nmemb sz = Some (None, st\<lparr>errno := ENOMEM\<rparr>)
    else (case malloc st (nmemb * sz) of
            None \<Rightarrow> calloc st nmemb sz = None
          | Some (None, st1) \<Rightarrow> calloc st nmemb sz = Some (None, st1)
          | Some (Some p, st1) \<Rightarrow>
              (wf_dir st bs \<and> unat (nmemb * sz) + 63 < 2 ^ 63 \<longrightarrow>
                 (\<exists>st2. calloc st nmemb sz = Some (Some p, st2) \<and>
                    hdr st2 = hdr st1 \<and> heap_head st2 = heap_head st1 \<and>
                    brk st2 = brk st1 \<and> errno st2 = errno st1 \<and>
                    nmemb * sz \<le> size_f (hdr st2 (p - PADDED_HEADER_SIZE)) \<and>
                    (\<forall>a. mem st2 a = (if a - p < nmemb * sz then 0 else mem st a)))))) \<and>
   (wf_dir st bs \<and> nmemb * sz \<noteq> 0 \<and> unat (nmemb * sz) + 63 < 2 ^ 63 \<longrightarrow>
      malloc st (nmemb * sz) \<noteq> None) \<and>
   calloc st SIZE_MAX 2 = Some (None, st\<lparr>errno := ENOMEM\<rparr>)"
proof -
  let ?t = "nmemb * sz"
  let ?g = "nmemb > 0 \<and> sz > 0 \<and> nmemb > SIZE_MAX div sz"
  have 1: "?g = (2 ^ 64 \<le> unat nmemb * unat sz)" by (rule overflow_guard)
  have "unat SIZE_MAX = 2 ^ 64 - 1"
    by (simp add: SIZE_MAX_def unsigned_minus_1_eq_mask mask_eq_exp_minus_1)
  then have "(2 :: nat) ^ 64 \<le> unat SIZE_MAX * unat (2 :: size_t)" by simp
  then have "SIZE_MAX > 0 \<and> (2 :: size_t) > 0 \<and> SIZE_MAX > SIZE_MAX div 2"
    by (simp only: overflow_guard)
  then have 4: "calloc st SIZE_MAX 2 = Some (None, st\<lparr>errno := ENOMEM\<rparr>)"
    by (simp add: calloc_def)
  have 3: "malloc st ?t \<noteq> None"
    if "wf_dir st bs" "?t \<noteq> 0" "unat ?t + 63 < 2 ^ 63"
  proof -
    have r: "unat ?t + 15 < 2 ^ 64" using that(3) by simp
    have "unat (align_up ?t) + 48 < 2 ^ 63" using align_up_bounds(2) [OF r] that(3) by simp
    from malloc_in_range [OF that(1,2) this] show ?thesis by auto
  qed
  have 2: "calloc st nmemb sz = Some (None, st\<lparr>errno := ENOMEM\<rparr>)" if ?g
    using that by (simp add: calloc_def)
  have 5: "case malloc st ?t of
            None \<Rightarrow> calloc st nmemb sz = None
          | Some (None, st1) \<Rightarrow> calloc st nmemb sz = Some (None, st1)
          | Some (Some p, st1) \<Rightarrow>
              (wf_dir st bs \<and> unat ?t + 63 < 2 ^ 63 \<longrightarrow>
                 (\<exists>st2. calloc st nmemb sz = Some (Some p, st2) \<and>
                    hdr st2 = hdr st1 \<and> heap_head st2 = heap_head st1 \<and>
                    brk st2 = brk st1 \<and> errno st2 = errno st1 \<and>
                    ?t \<le> size_f (hdr st2 (p - PADDED_HEADER_SIZE)) \<and>
                    (\<forall>a. mem st2 a = (if a - p < ?t then 0 else mem st a))))"
    if ng: "\<not> ?g"
  proof (cases "malloc st ?t")
    case None
    then show ?thesis using ng by (auto simp: calloc_def)
  next
    case (Some res)
    obtain r st1 where res: "res = (r, st1)" by (cases res)
    show ?thesis
    proof (cases r)
      case None
      then show ?thesis using ng Some res by (auto simp: calloc_def)
    next
      case (Some p)
      have "\<exists>st2. calloc st nmemb sz = Some (Some p, st2) \<and>
                    hdr st2 = hdr st1 \<and> heap_head st2 = heap_head st1 \<and>
                    brk st2 = brk st1 \<and> errno st2 = errno st1 \<and>
                    ?t \<le> size_f (hdr st2 (p - PADDED_HEADER_SIZE)) \<and>
                    (\<forall>a. mem st2 a = (if a - p < ?t then 0 else mem st a))"
        if "wf_dir st bs" "unat ?t + 63 < 2 ^ 63"
      proof -
        have m: "malloc st ?t = Some (Some p, st1)"
          using \<open>malloc st ?t = Some res\<close> res Some by simp
        from calloc_in_range [OF that m] show ?thesis
          using ng m by (auto simp: calloc_def)
      qed
      then show ?thesis using \<open>malloc st ?t = Some res\<close> res Some by simp
    qed
  qed
  have 6: "if ?g then calloc st nmemb sz = Some (None, st\<lparr>errno := ENOMEM\<rparr>)
    else (case malloc st ?t of
            None \<Rightarrow> calloc st nmemb sz = None
          | Some (None, st1) \<Rightarrow> calloc st nmemb sz = Some (None, st1)
          | Some (Some p, st1) \<Rightarrow>
              (wf_dir st bs \<and> unat ?t + 63 < 2 ^ 63 \<longrightarrow>
                 (\<exists>st2. calloc st nmemb sz = Some (Some p, st2) \<and>
                    hdr st2 = hdr st1 \<and> heap_head st2 = heap_head st1 \<and>
                    brk st2 = brk st1 \<and> errno st2 = errno st1 \<and>
                    ?t \<le> size_f (hdr st2 (p - PADDED_HEADER_SIZE)) \<and>
                    (\<forall>a. mem st2 a = (if a - p < ?t then 0 else mem st a)))))"
  proof (cases ?g)
    case True
    show ?thesis by (subst if_P [OF True]) (rule 2 [OF True])
  next
    case False
    show ?thesis by (subst if_not_P [OF False]) (rule 5 [OF False])
  qed
  have 7: "wf_dir st bs \<and> ?t \<noteq> 0 \<and> unat ?t + 63 < 2 ^ 63 \<longrightarrow> malloc st ?t \<noteq> None"
    using 3 by blast
  from 1 6 7 4 show ?thesis by (intro conjI)
qed

theorem calloc_zero_fill_witness:
  "\<not> ((3 :: size_t) > 0 \<and> (5 :: size_t) > 0 \<and> 3 > SIZE_MAX div 5) \<and>
   wf_dir reused_process [0x1000] \<and> (3 * 5 :: size_t) \<noteq> 0 \<and>
   unat (3 * 5 :: size_t) + 63 < 2 ^ 63 \<and>
   malloc reused_process (3 * 5) \<noteq> None \<and>
   mem reused_process 0x1020 = 0xFF \<and>
   (\<exists>st2. calloc reused_process 3 5 = Some (Some 0x1020, st2) \<and>
      (3 * 5 :: size_t) \<le> size_f (hdr st2 0x1000) \<and>
      mem st2 0x1020 = 0 \<and> mem st2 0x102E = 0 \<and> mem st2 0x102F = 0xFF)"
proof -
  define S1 where "S1 = state_of (malloc reused_process 15)"
  have g: "\<not> ((3 :: size_t) > 0 \<and> (5 :: size_t) > 0 \<and> 3 > SIZE_MAX div 5)"
    using overflow_guard [of 3 5] by simp
  have m: "malloc reused_process 15 = Some (Some 0x1020, S1)"
    unfolding S1_def
    by (simp add: reused_process_fields malloc_def align_up_def ALGN_def PADDED_HEADER_SIZE_eq
        first_fit.simps state_of_def Let_def)
  have n: "(3 * 5 :: size_t) \<noteq> 0" "unat (3 * 5 :: size_t) + 63 < 2 ^ 63" by simp_all
  have d: "mem reused_process 0x1020 = 0xFF" "mem reused_process 0x102E = 0xFF"
    "mem reused_process 0x102F = 0xFF"
    by (simp_all add: reused_process_fields)
  from calloc_zero_fill [of 3 5 reused_process "[0x1000]"] g m reused_process_wf n
  obtain st2 where c: "calloc reused_process 3 5 = Some (Some 0x1020, st2)"
    and s: "(3 * 5 :: size_t) \<le> size_f (hdr st2 (0x1020 - PADDED_HEADER_SIZE))"
    and z: "\<And>a. mem st2 a = (if a - 0x1020 < 3 * 5 then 0 else mem reused_process a)"
    by auto
  have "mem st2 0x1020 = 0 \<and> mem st2 0x102E = 0 \<and> mem st2 0x102F = 0xFF"
    by (simp add: z d)
  moreover have "(3 * 5 :: size_t) \<le> size_f (hdr st2 0x1000)"
    using s by (simp add: PADDED_HEADER_SIZE_eq)
  ultimately show ?thesis
    using g reused_process_wf n m c d by simp
qed

subsection \<open>C7: realloc with a null pointer or a zero size\<close>

text \<open>Claim C7: \<^verbatim>\<open>realloc(NULL, s)\<close> is \<^verbatim>\<open>malloc(s)\<close>, with the same result and the same
  state, for every \<open>s\<close>; and \<^verbatim>\<open>realloc(p, 0)\<close> for a non-null \<open>p\<close> is \<^verbatim>\<open>free(p)\<close>
  followed by the result \<^verbatim>\<open>NULL\<close> (in part\_001 and in part\_000). In particular, when
  \<open>p\<close> is the payload of an in-use block \<open>c\<close> of a well-formed directory,
  \<^verbatim>\<open>realloc(p, 0)\<close> returns, \<open>c\<close> is free afterwards, and a following \<^verbatim>\<open>malloc(m)\<close>
  whose aligned request is at most the usable size of \<open>c\<close> is served from the directory,
  without moving the program break.\<close>

theorem realloc_null_and_zero:
  "realloc st None sz = malloc st sz \<and>
   realloc st (Some p) 0 =
     (case free st (Some p) of None \<Rightarrow> None | Some st' \<Rightarrow> Some (None, st')) \<and>
   realloc_p0 st None sz = malloc_p0 st sz \<and>
   realloc_p0 st (Some p) 0 =
     (case free_p0 st (Some p) of None \<Rightarrow> None | Some st' \<Rightarrow> Some (None, st')) \<and>
   (wf_dir st bs \<and> c \<in> set bs \<and> \<not> is_free (hdr st c) \<and>
    m \<noteq> 0 \<and> align_up m \<le> size_f (hdr st c) \<longrightarrow>
      (\<exists>st'. free st (Some (c + PADDED_HEADER_SIZE)) = Some st' \<and>
         realloc st (Some (c + PADDED_HEADER_SIZE)) 0 = Some (None, st') \<and>
         is_free (hdr st' c) \<and>
         (\<exists>q st''. malloc st' m = Some (Some q, st'') \<and> brk st'' = brk st')))"
proof -
  have 1: "realloc st None sz = malloc st sz" by (simp add: realloc_def)
  have 2: "\<And>p. realloc st (Some p) 0 =
     (case free st (Some p) of None \<Rightarrow> None | Some st' \<Rightarrow> Some (None, st'))"
    by (simp add: realloc_def)
  have 3: "\<exists>st'. free st (Some (c + PADDED_HEADER_SIZE)) = Some st' \<and>
         realloc st (Some (c + PADDED_HEADER_SIZE)) 0 = Some (None, st') \<and>
         is_free (hdr st' c) \<and>
         (\<exists>q st''. malloc st' m = Some (Some q, st'') \<and> brk st'' = brk st')"
    if wf: "wf_dir st bs" and c: "c \<in> set bs" and used: "\<not> is_free (hdr st c)"
      and m: "m \<noteq> 0" and fit: "align_up m \<le> size_f (hdr st c)"
  proof -
    from c obtain pre post where bs: "bs = pre @ c # post"
      by (auto simp: in_set_conv_decomp)
    from free_wf [OF wf [unfolded bs] used]
    obtain st' bs' k where f: "free st (Some (c + PADDED_HEADER_SIZE)) = Some st'"
      and wf': "wf_dir st' bs'" and k: "k \<in> set bs'" "is_free (hdr st' k)"
      and fc: "is_free (hdr st' c)"
      and sz: "unat (size_f (hdr st c)) \<le> unat (size_f (hdr st' k))"
      by blast
    let ?P = "\<lambda>b. is_free (hdr st' b) \<and> align_up m \<le> size_f (hdr st' b)"
    have "?P k" using k(2) fit sz by (simp add: word_le_nat_alt)
    with k(1) have "\<exists>x\<in>set bs'. ?P x" by blast
    then obtain pre' k' post' where d: "bs' = pre' @ k' # post'" "?P k'"
      "\<forall>b\<in>set pre'. \<not> ?P b"
      using split_list_first_prop [of bs' ?P] by blast
    from malloc_first_fit_effect [OF wf' [unfolded d(1)] m d(3)] d(2)
    obtain st'' where "malloc st' m = Some (Some (k' + PADDED_HEADER_SIZE), st'')"
      "brk st'' = brk st'" by blast
    then show ?thesis using f fc by (simp add: 2)
  qed
  have 4: "realloc_p0 st None sz = malloc_p0 st sz"
    "realloc_p0 st (Some p) 0 =
     (case free_p0 st (Some p) of None \<Rightarrow> None | Some st' \<Rightarrow> Some (None, st'))"
    by (simp_all add: realloc_p0_def)
  show ?thesis using 1 2 3 4 by blast
qed

theorem realloc_null_and_zero_witness:
  "wf_dir after_malloc_100 [0x1000, 0x1090] \<and> 0x1000 \<in> set [0x1000, 0x1090 :: addr] \<and>
   \<not> is_free (hdr after_malloc_100 0x1000) \<and> (100 :: size_t) \<noteq> 0 \<and>
   align_up 100 \<le> size_f (hdr after_malloc_100 0x1000) \<and>
   (\<exists>st'. realloc after_malloc_100 (Some 0x1020) 0 = Some (None, st') \<and>
      free after_malloc_100 (Some 0x1020) = Some st' \<and>
      is_free (hdr st' 0x1000) \<and>
      (\<exists>q st''. malloc st' 100 = Some (Some q, st'') \<and> brk st'' = brk st'))"
proof -
  have h: "wf_dir after_malloc_100 [0x1000, 0x1090] \<and> 0x1000 \<in> set [0x1000, 0x1090 :: addr] \<and>
     \<not> is_free (hdr after_malloc_100 0x1000) \<and> (100 :: size_t) \<noteq> 0 \<and>
     align_up 100 \<le> size_f (hdr after_malloc_100 0x1000)"
    using after_malloc_100_wf
    by (simp add: after_malloc_100_fields align_up_def ALGN_def)
  from realloc_null_and_zero [of after_malloc_100 0 "0x1020" "[0x1000, 0x1090]" "0x1000" 100] h
  show ?thesis by (auto simp: PADDED_HEADER_SIZE_eq)
qed

subsection \<open>C8: malloc(0)\<close>

text \<open>Claim C8: \<^verbatim>\<open>malloc(0)\<close> returns \<^verbatim>\<open>NULL\<close> and leaves the whole state as it was:
  the directory (block count, sizes, free flags), the program break and \<^verbatim>\<open>errno\<close>. This
  holds in part\_001 (and asgn01/malloc.c) and in the logging build, which writes no
  trace line on this path.\<close>

theorem malloc_zero: "malloc st 0 = Some (None, st) \<and> malloc_p0 st 0 = Some (None, st)"
  by (simp add: malloc_def malloc_p0_def)

subsection \<open>C9: the debug flag\<close>

text \<open>The function \<^verbatim>\<open>check_debug_mode\<close> by itself: its first call reads the environment
  and stores the answer, and a later call returns the stored answer whatever the
  environment has become.\<close>

lemma check_debug_mode_cached:
  assumes "debug_mode st = - 1" and "check_debug_mode st = (flag, st')"
  shows "flag = (if environ st ''DEBUG_MALLOC'' \<noteq> None then 1 else 0) \<and>
         debug_mode st' = flag \<and>
         check_debug_mode (st'\<lparr>environ := e\<rparr>) = (flag, st'\<lparr>environ := e\<rparr>)"
  using assms by (auto simp: check_debug_mode_def Let_def split: if_splits)

text \<open>Claim C9, evaluated where it fails: with \<^verbatim>\<open>DEBUG_MALLOC\<close> absent from the
  environment (so that \<^verbatim>\<open>check_debug_mode()\<close> would answer 0), \<^verbatim>\<open>malloc(1)\<close> and
  \<^verbatim>\<open>free(NULL)\<close> of the logging build still write their trace line, and the flag is
  left at -1: the function is never called, so the environment is never read.\<close>

theorem trace_without_flag:
  "environ fresh_process ''DEBUG_MALLOC'' = None \<and>
   debug_mode fresh_process = - 1 \<and>
   result_of (malloc_p0 fresh_process 1) = Some 0x1020 \<and>
   out (state_of (malloc_p0 fresh_process 1)) = [Malloc_line 1 0x1020 16] \<and>
   debug_mode (state_of (malloc_p0 fresh_process 1)) = - 1 \<and>
   fst (check_debug_mode fresh_process) = 0 \<and>
   map_option out (free_p0 fresh_process None) = Some [Free_line None]"
  by (simp add: malloc_p0_def free_p0_def free_def check_debug_mode_designator_def pp_def check_debug_mode_def
      run_defs)

subsection \<open>C10: the two realloc implementations\<close>

text \<open>Claim C10, evaluated where it fails: after \<^verbatim>\<open>p = malloc(16)\<close> in a fresh process
  the free successor \<open>0x1030\<close> has 65456 bytes. \<^verbatim>\<open>realloc(p, 64)\<close> expands in place in
  both files and returns \<open>p\<close>; part\_000 splits the excess off as the free block
  \<open>0x1060\<close> of 65408 bytes, part\_001 leaves the block \<open>0x1000\<close> with size 64 and no
  successor, so the directories differ.\<close>

theorem realloc_expand_differs:
  "malloc fresh_process 16 = Some (Some 0x1020, after_malloc_16) \<and>
   result_of (realloc after_malloc_16 (Some 0x1020) 64) = Some 0x1020 \<and>
   chain (hdr (state_of (realloc after_malloc_16 (Some 0x1020) 64)))
         (heap_head (state_of (realloc after_malloc_16 (Some 0x1020) 64))) [0x1000] \<and>
   result_of (realloc_p0 after_malloc_16 (Some 0x1020) 64) = Some 0x1020 \<and>
   chain (hdr (state_of (realloc_p0 after_malloc_16 (Some 0x1020) 64)))
         (heap_head (state_of (realloc_p0 after_malloc_16 (Some 0x1020) 64))) [0x1000, 0x1060] \<and>
   hdr (state_of (realloc_p0 after_malloc_16 (Some 0x1020) 64)) 0x1060 =
     \<lparr>size_f = 65408, is_free = True, next = None, prev = Some 0x1000\<rparr> \<and>
   hdr (state_of (realloc after_malloc_16 (Some 0x1020) 64)) 0x1000 =
     \<lparr>size_f = 64, is_free = False, next = None, prev = None\<rparr> \<and>
   hdr (state_of (realloc_p0 after_malloc_16 (Some 0x1020) 64)) 0x1000 =
     \<lparr>size_f = 64, is_free = False, next = Some 0x1060, prev = None\<rparr>"
proof -
  have "malloc fresh_process 16 = Some (Some 0x1020, after_malloc_16)"
    by (simp add: after_malloc_16_def run_defs)
  then show ?thesis
    by (simp add: realloc_def realloc_p0_def expand_in_place_def expand_in_place_p0_def
        check_debug_mode_designator_def pp_def
        after_malloc_16_fields align_up_def ALGN_def PADDED_HEADER_SIZE_eq
        field_writes Let_def state_of_def result_of_def)
qed

end
